theory Spec2Isabelle
  imports Complex_Main
begin

section \<open>Path names\<close>

text \<open>
  The watcher (\<^verbatim>\<open>src/compress.py\<close>) handles path names with \<^verbatim>\<open>os.path\<close> and tests file
  names with \<^verbatim>\<open>str.startswith\<close> and \<^verbatim>\<open>str.endswith\<close>. The functions below are the POSIX
  versions (\<^verbatim>\<open>posixpath\<close>), on strings as character lists.
\<close>

definition startswith :: "string \<Rightarrow> string \<Rightarrow> bool" where
  "startswith s p = (take (length p) s = p)"

definition endswith :: "string \<Rightarrow> string \<Rightarrow> bool" where
  "endswith s p = (length p \<le> length s \<and> drop (length s - length p) s = p)"

definition not_sep :: "char \<Rightarrow> bool" where
  "not_sep c = (c \<noteq> CHR ''/'')"

text \<open>\<^verbatim>\<open>i = p.rfind('/') + 1\<close>: \<open>before_cut p\<close> is \<^verbatim>\<open>p[:i]\<close> and \<open>basename p\<close> is \<^verbatim>\<open>p[i:]\<close>.\<close>

definition before_cut :: "string \<Rightarrow> string" where
  "before_cut p = rev (dropWhile not_sep (rev p))"

definition basename :: "string \<Rightarrow> string" where
  "basename p = rev (takeWhile not_sep (rev p))"

definition rstrip_sep :: "string \<Rightarrow> string" where
  "rstrip_sep s = rev (dropWhile (\<lambda>c. \<not> not_sep c) (rev s))"

text \<open>
  \<^verbatim>\<open>os.path.split\<close>: the head loses its trailing slashes unless it consists of slashes only.
\<close>

definition path_split :: "string \<Rightarrow> string \<times> string" where
  "path_split p =
     (let head = before_cut p; tail = basename p
      in (if head \<noteq> [] \<and> head \<noteq> replicate (length head) (CHR ''/'')
          then rstrip_sep head else head, tail))"

text \<open>\<^verbatim>\<open>os.path.join\<close> of two components.\<close>

definition path_join :: "string \<Rightarrow> string \<Rightarrow> string" where
  "path_join a b =
     (if startswith b ''/'' then b
      else if a = [] \<or> endswith a ''/'' then a @ b
      else a @ ''/'' @ b)"

section \<open>Containers, files and the world\<close>

text \<open>
  A hierarchical container is a root group whose members are links, by name, to objects.
  An object is a dataset (its payload, the storage filter it was written with and its
  attributes), a group (its members in iteration order and its attributes) or a committed
  datatype. An object can be linked more than once: \<open>Again x\<close> is one more hard link to an
  object \<open>x\<close> that an earlier name already links. A member can also be a soft link to a path
  or an external link to a path of another file. Paths inside a container are lists of
  member names (\<^verbatim>\<open>a/b/c\<close> is \<open>[a, b, c]\<close>).
\<close>

type_synonym h5path = "string list"
type_synonym payload = "nat list"
type_synonym storage = "string option \<times> int option"
type_synonym attrs = "(string \<times> payload) list"

datatype obj =
    Dataset payload storage attrs
  | Group "(string \<times> obj) list" attrs
  | Datatype attrs
  | Again obj
  | SoftLink string
  | ExternalLink string string

type_synonym members = "(string \<times> obj) list"

text \<open>A file on disk is a container, or something that does not open as one.\<close>

datatype diskfile = H5File members | NotH5

text \<open>
  Every exception the handler's calls can raise, named by the call that raises it:
  the size read of the probe, the creation of the temporary file, opening the
  source or the destination, reading a dataset, creating a dataset or a group, the move,
  and printing a line. The lines the program prints are named by their tag; the error
  line carries the exception it reports.
\<close>

datatype error =
    GetsizeError string
  | MkstempError string
  | OpenReadError string
  | OpenWriteError string
  | ReadDataError h5path
  | CreateError h5path
  | MoveError string string
  | PrintError line
and line =
    INFO_Compressing string string
  | DONE_Replaced string
  | WAIT_Still_writing string
  | ERROR_Compression_failed string error

text \<open>
  The calls to the operating system that the handler makes, in order. The world holds
  the clock (\<^verbatim>\<open>time.time()\<close>, a real number that only \<^verbatim>\<open>time.sleep\<close> advances), the files
  by path, the calls made so far, and the cell \<^verbatim>\<open>last_event_time[0]\<close> that the handler
  shares with the main loop.
\<close>

datatype call =
    Getsize string "nat option"
  | Sleep real
  | Print line
  | Mkstemp string "string option"
  | OpenRead string
  | OpenWrite string
  | Move string string

record world =
  clock :: real
  files :: "string \<rightharpoonup> diskfile"
  trace :: "call list"
  last_event_time :: real

text \<open>
  What the handler cannot decide: the size another process gives the watched file
  at each moment (\<open>None\<close>: the path is gone), the names the temporary-file generator
  draws, and which calls fail for reasons outside the model (permissions, a full disk, a
  filter the library refuses for a dataset, an output stream that is closed or cannot
  encode a file name).
\<close>

record env =
  size_at :: "real \<Rightarrow> string \<Rightarrow> nat option"
  tmp_names :: "string list"
  raises :: "error \<Rightarrow> bool"

record handler =
  compression :: "string option"
  compression_level :: int

definition log_call :: "call \<Rightarrow> world \<Rightarrow> world" where
  "log_call c w = w\<lparr>trace := trace w @ [c]\<rparr>"

text \<open>\<^verbatim>\<open>print(...)\<close> writes the line, or raises.\<close>

definition print :: "env \<Rightarrow> line \<Rightarrow> world \<Rightarrow> (error + unit) \<times> world" where
  "print e l w =
     (let w1 = log_call (Print l) w
      in if raises e (PrintError l) then (Inl (PrintError l), w1) else (Inr (), w1))"

definition sleep :: "real \<Rightarrow> world \<Rightarrow> world" where
  "sleep d w = log_call (Sleep d) (w\<lparr>clock := clock w + d\<rparr>)"

definition getsize :: "env \<Rightarrow> string \<Rightarrow> world \<Rightarrow> (error + nat) \<times> world" where
  "getsize e path w =
     (case size_at e (clock w) path of
        None \<Rightarrow> (Inl (GetsizeError path), log_call (Getsize path None) w)
      | Some n \<Rightarrow> (Inr n, log_call (Getsize path (Some n)) w))"

section \<open>The stability probe\<close>

definition is_stable :: "env \<Rightarrow> string \<Rightarrow> real \<Rightarrow> world \<Rightarrow> (error + bool) \<times> world" where
  "is_stable e path wait w =
     (case getsize e path w of
        (Inl x, w1) \<Rightarrow> (Inl x, w1)
      | (Inr size1, w1) \<Rightarrow>
          (case getsize e path (sleep wait w1) of
             (Inl x, w2) \<Rightarrow> (Inl x, w2)
           | (Inr size2, w2) \<Rightarrow> (Inr (size1 = size2), w2)))"

section \<open>Recompression\<close>

text \<open>
  \<^verbatim>\<open>tempfile.mkstemp(suffix, dir)\<close>: the first drawn name \<open>tmp<name><suffix>\<close> in \<open>dir\<close>
  that does not exist is created, empty. It fails when the environment refuses or every
  drawn name exists. The path returned is \<open>dir\<close> joined with the name, as written: the
  library also makes it absolute, which names the same file.
\<close>

fun mkstemp_pick :: "(string \<rightharpoonup> diskfile) \<Rightarrow> string \<Rightarrow> string \<Rightarrow> string list \<Rightarrow> string option" where
  "mkstemp_pick fs suffix dir [] = None"
| "mkstemp_pick fs suffix dir (n # ns) =
     (let file = path_join dir (''tmp'' @ n @ suffix)
      in if fs file = None then Some file else mkstemp_pick fs suffix dir ns)"

definition mkstemp :: "env \<Rightarrow> string \<Rightarrow> string \<Rightarrow> world \<Rightarrow> (error + string) \<times> world" where
  "mkstemp e suffix dir w =
     (if raises e (MkstempError dir) then (Inl (MkstempError dir), log_call (Mkstemp dir None) w)
      else case mkstemp_pick (files w) suffix dir (tmp_names e) of
          None \<Rightarrow> (Inl (MkstempError dir), log_call (Mkstemp dir None) w)
        | Some file \<Rightarrow>
            (Inr file, log_call (Mkstemp dir (Some file)) (w\<lparr>files := (files w)(file \<mapsto> NotH5)\<rparr>)))"

text \<open>\<^verbatim>\<open>h5py.File(path, 'r')\<close> needs an existing container at the path.\<close>

definition h5_open_read :: "env \<Rightarrow> string \<Rightarrow> world \<Rightarrow> (error + members) \<times> world" where
  "h5_open_read e path w =
     (let w1 = log_call (OpenRead path) w
      in if raises e (OpenReadError path) then (Inl (OpenReadError path), w1)
         else case files w path of
             Some (H5File content) \<Rightarrow> (Inr content, w1)
           | _ \<Rightarrow> (Inl (OpenReadError path), w1))"

text \<open>\<^verbatim>\<open>h5py.File(path, 'w')\<close> creates the file or truncates it to an empty container.\<close>

definition h5_open_write :: "env \<Rightarrow> string \<Rightarrow> world \<Rightarrow> (error + unit) \<times> world" where
  "h5_open_write e path w =
     (let w1 = log_call (OpenWrite path) w
      in if raises e (OpenWriteError path) then (Inl (OpenWriteError path), w1)
         else (Inr (), w1\<lparr>files := (files w1)(path \<mapsto> H5File [])\<rparr>))"

text \<open>
  \<^verbatim>\<open>visititems\<close> follows hard links only and calls back once for every object below the
  root, a group before its members, with the path under which it reached the object
  first. A further hard link to an object already visited is passed over, with all that
  lies below it; soft and external links are not followed.
\<close>

function visititems :: "members \<Rightarrow> (h5path \<times> obj) list" where
  "visititems [] = []"
| "visititems ((n, Dataset d s a) # ms) = ([n], Dataset d s a) # visititems ms"
| "visititems ((n, Group g a) # ms) =
     ([n], Group g a) # map (\<lambda>(p, x). (n # p, x)) (visititems g) @ visititems ms"
| "visititems ((n, Datatype a) # ms) = ([n], Datatype a) # visititems ms"
| "visititems ((n, Again x) # ms) = visititems ms"
| "visititems ((n, SoftLink t) # ms) = visititems ms"
| "visititems ((n, ExternalLink f t) # ms) = visititems ms"
  by pat_completeness auto
termination
  by (relation "measure (size_list (size_prod (\<lambda>_. 0) size))") auto

text \<open>
  Creating an object at a path of a destination group: missing intermediate groups are
  created, a new member goes last, and the call fails when the name is empty, when the
  path is taken, or when an intermediate name is not a group.
\<close>

fun replace_member :: "string \<Rightarrow> obj \<Rightarrow> members \<Rightarrow> members" where
  "replace_member n x [] = []"
| "replace_member n x ((m, y) # ms) =
     (if m = n then (m, x) # ms else (m, y) # replace_member n x ms)"

fun h5_create :: "h5path \<Rightarrow> obj \<Rightarrow> members \<Rightarrow> members option" where
  "h5_create [] x ms = None"
| "h5_create [n] x ms = (if map_of ms n = None then Some (ms @ [(n, x)]) else None)"
| "h5_create (n # p) x ms =
     (case map_of ms n of
        None \<Rightarrow> map_option (\<lambda>sub. ms @ [(n, Group sub [])]) (h5_create p x [])
      | Some (Group sub a) \<Rightarrow>
          map_option (\<lambda>sub'. replace_member n (Group sub' a) ms) (h5_create p x sub)
      | Some y \<Rightarrow> None)"

text \<open>
  \<^verbatim>\<open>dst.create_dataset(name, data=data, **kwargs)\<close> and \<^verbatim>\<open>dst.create_group(name)\<close>: the new
  object has no attributes.
\<close>

definition create_dataset :: "env \<Rightarrow> h5path \<Rightarrow> payload \<Rightarrow> storage \<Rightarrow> members \<Rightarrow> error + members" where
  "create_dataset e name data kwargs dst =
     (if raises e (CreateError name) then Inl (CreateError name)
      else case h5_create name (Dataset data kwargs []) dst of
          None \<Rightarrow> Inl (CreateError name)
        | Some dst' \<Rightarrow> Inr dst')"

definition create_group :: "env \<Rightarrow> h5path \<Rightarrow> members \<Rightarrow> error + members" where
  "create_group e name dst =
     (if raises e (CreateError name) then Inl (CreateError name)
      else case h5_create name (Group [] []) dst of
          None \<Rightarrow> Inl (CreateError name)
        | Some dst' \<Rightarrow> Inr dst')"

text \<open>
  The keyword arguments of \<^verbatim>\<open>create_dataset\<close>: the configured compression, and the level
  as \<^verbatim>\<open>compression_opts\<close> for gzip only.
\<close>

definition kwargs_of :: "handler \<Rightarrow> storage" where
  "kwargs_of self =
     (compression self,
      if compression self = Some ''gzip'' then Some (compression_level self) else None)"

text \<open>
  The callback \<^verbatim>\<open>_recurse(name, obj)\<close> of \<^verbatim>\<open>compress_and_replace\<close>: a dataset is read and
  created again; for every other object (the \<^verbatim>\<open>else\<close> branch) a group is created.
\<close>

fun recurse :: "handler \<Rightarrow> env \<Rightarrow> h5path \<Rightarrow> obj \<Rightarrow> members \<Rightarrow> error + members" where
  "recurse self e name (Dataset d s a) dst =
     (if raises e (ReadDataError name) then Inl (ReadDataError name)
      else create_dataset e name d (kwargs_of self) dst)"
| "recurse self e name x dst = create_group e name dst"

text \<open>
  \<^verbatim>\<open>src.visititems(_recurse)\<close>: the callback runs on each object in turn; the first
  exception stops the walk, and the destination keeps what was written before it.
\<close>

fun copy_items :: "handler \<Rightarrow> env \<Rightarrow> (h5path \<times> obj) list \<Rightarrow> members \<Rightarrow> error option \<times> members" where
  "copy_items self e [] dst = (None, dst)"
| "copy_items self e ((name, x) # rest) dst =
     (case recurse self e name x dst of
        Inl err \<Rightarrow> (Some err, dst)
      | Inr dst' \<Rightarrow> copy_items self e rest dst')"

text \<open>
  \<^verbatim>\<open>shutil.move(tmp_path, src_path)\<close> on one file system is a rename: the destination
  takes the source's content and the source name disappears, or the call fails and
  nothing changes. (The temporary file lies in the directory of the target, so the copy
  that replaces the rename across file systems is left out.)
\<close>

definition shutil_move :: "env \<Rightarrow> string \<Rightarrow> string \<Rightarrow> world \<Rightarrow> (error + unit) \<times> world" where
  "shutil_move e src dst w =
     (let w1 = log_call (Move src dst) w
      in if raises e (MoveError src dst) then (Inl (MoveError src dst), w1)
         else case files w src of
             None \<Rightarrow> (Inl (MoveError src dst), w1)
           | Some f \<Rightarrow> (Inr (), w1\<lparr>files := ((files w1)(dst \<mapsto> f))(src := None)\<rparr>))"

definition compress_and_replace :: "handler \<Rightarrow> env \<Rightarrow> string \<Rightarrow> world \<Rightarrow> (error + unit) \<times> world" where
  "compress_and_replace self e src_path w =
     (let (dirname, fname) = path_split src_path
      in case mkstemp e ''.h5'' dirname w of
          (Inl x, w1) \<Rightarrow> (Inl x, w1)
        | (Inr tmp_path, w1) \<Rightarrow>
            (case print e (INFO_Compressing src_path tmp_path) w1 of
               (Inl x, w2) \<Rightarrow> (Inl x, w2)
             | (Inr u, w2) \<Rightarrow>
                 (case h5_open_read e src_path w2 of
                    (Inl x, w3) \<Rightarrow> (Inl x, w3)
                  | (Inr src, w3) \<Rightarrow>
                      (case h5_open_write e tmp_path w3 of
                         (Inl x, w4) \<Rightarrow> (Inl x, w4)
                       | (Inr u', w4) \<Rightarrow>
                           (case copy_items self e (visititems src) [] of
                              (Some x, dst) \<Rightarrow>
                                (Inl x, w4\<lparr>files := (files w4)(tmp_path \<mapsto> H5File dst)\<rparr>)
                            | (None, dst) \<Rightarrow>
                                (case shutil_move e tmp_path src_path
                                        (w4\<lparr>files := (files w4)(tmp_path \<mapsto> H5File dst)\<rparr>) of
                                   (Inl x, w5) \<Rightarrow> (Inl x, w5)
                                 | (Inr u'', w5) \<Rightarrow> print e (DONE_Replaced src_path) w5))))))"

section \<open>The creation handler\<close>

text \<open>
  The loop \<^verbatim>\<open>while not self.is_stable(filepath)\<close> has no bound. \<open>wait_until_stable n\<close>
  runs at most \<open>n\<close> probes: \<open>None\<close> says that the loop is still waiting after them. The
  loop is not inside a \<^verbatim>\<open>try\<close>: an exception of the probe or of the print ends it.
\<close>

fun wait_until_stable :: "nat \<Rightarrow> env \<Rightarrow> string \<Rightarrow> world \<Rightarrow> (error + unit) option \<times> world" where
  "wait_until_stable 0 e filepath w = (None, w)"
| "wait_until_stable (Suc n) e filepath w =
     (case is_stable e filepath 1 w of
        (Inl x, w1) \<Rightarrow> (Some (Inl x), w1)
      | (Inr True, w1) \<Rightarrow> (Some (Inr ()), w1)
      | (Inr False, w1) \<Rightarrow>
          (case print e (WAIT_Still_writing filepath) w1 of
             (Inl x, w2) \<Rightarrow> (Some (Inl x), w2)
           | (Inr u, w2) \<Rightarrow> wait_until_stable n e filepath (sleep (1 / 2) w2)))"

text \<open>
  How a call of \<^verbatim>\<open>on_created\<close> ends when it returns: the event was filtered out, the file
  was replaced, or the recompression failed and the failure was printed. \<open>Inl\<close> is an
  exception that leaves the handler.
\<close>

datatype outcome = Ignored | Compressed | Failed error

text \<open>A file-system event of the watch facility.\<close>

record event =
  is_directory :: bool
  src_path :: string

definition candidate :: "event \<Rightarrow> bool" where
  "candidate ev =
     (\<not> is_directory ev \<and>
      \<not> (\<not> endswith (basename (src_path ev)) ''.h5'' \<or> startswith (basename (src_path ev)) ''tmp''))"

definition on_created :: "nat \<Rightarrow> handler \<Rightarrow> env \<Rightarrow> event \<Rightarrow> world \<Rightarrow> (error + outcome) option \<times> world" where
  "on_created fuel self e ev w =
     (if is_directory ev then (Some (Inr Ignored), w)
      else let filename = basename (src_path ev)
        in if \<not> endswith filename ''.h5'' \<or> startswith filename ''tmp'' then (Some (Inr Ignored), w)
           else let w1 = w\<lparr>last_event_time := clock w\<rparr>; filepath = src_path ev
             in case wait_until_stable fuel e filepath w1 of
                 (None, w2) \<Rightarrow> (None, w2)
               | (Some (Inl x), w2) \<Rightarrow> (Some (Inl x), w2)
               | (Some (Inr u), w2) \<Rightarrow>
                   (case compress_and_replace self e filepath w2 of
                      (Inl x, w3) \<Rightarrow>
                        (case print e (ERROR_Compression_failed filepath x) w3 of
                           (Inl y, w4) \<Rightarrow> (Some (Inl y), w4)
                         | (Inr u', w4) \<Rightarrow> (Some (Inr (Failed x)), w4))
                    | (Inr u', w3) \<Rightarrow> (Some (Inr Compressed), w3)))"

section \<open>The main program\<close>

text \<open>
  One-shot mode: \<^verbatim>\<open>os.walk\<close> yields a triple (directory, subdirectories, file names) for
  every directory below the working directory; the walk is given as that list. \<open>Inl\<close> is
  an exception that leaves the loops.
\<close>

fun once_files :: "handler \<Rightarrow> env \<Rightarrow> string \<Rightarrow> string list \<Rightarrow> world \<Rightarrow> (error + unit) \<times> world" where
  "once_files self e walk_root [] w = (Inr (), w)"
| "once_files self e walk_root (fname # rest) w =
     (if \<not> endswith fname ''.h5'' \<or> startswith fname ''tmp'' then once_files self e walk_root rest w
      else let path = path_join walk_root fname
        in case compress_and_replace self e path w of
            (Inl x, w1) \<Rightarrow>
              (case print e (ERROR_Compression_failed path x) w1 of
                 (Inl y, w2) \<Rightarrow> (Inl y, w2)
               | (Inr u, w2) \<Rightarrow> once_files self e walk_root rest w2)
          | (Inr u, w1) \<Rightarrow> once_files self e walk_root rest w1)"

fun once_walk :: "handler \<Rightarrow> env \<Rightarrow> (string \<times> string list \<times> string list) list \<Rightarrow> world \<Rightarrow> (error + unit) \<times> world" where
  "once_walk self e [] w = (Inr (), w)"
| "once_walk self e ((walk_root, dirs, fnames) # rest) w =
     (case once_files self e walk_root fnames w of
        (Inl y, w1) \<Rightarrow> (Inl y, w1)
      | (Inr u, w1) \<Rightarrow> once_walk self e rest w1)"

text \<open>
  Watch mode: the main thread wakes every second and compares the clock with the shared
  time stamp, which the observer thread's handler writes. A run is an interleaving of
  the main thread's wake-ups, the handler's entries and a possible interrupt, each at its
  time. \<open>None\<close> says that the loop is still running at the end of the given run.
\<close>

datatype step = Wake real | Created real event | KeyboardInterrupt

datatype shutdown = Idle_shutdown real | Interrupt_shutdown

definition mark_event :: "event \<Rightarrow> real \<Rightarrow> real \<Rightarrow> real" where
  "mark_event ev now stamp = (if candidate ev then now else stamp)"

fun watch_loop :: "real \<Rightarrow> step list \<Rightarrow> real \<Rightarrow> shutdown option" where
  "watch_loop idle_timeout [] stamp = None"
| "watch_loop idle_timeout (Wake now # rest) stamp =
     (let idle = now - stamp
      in if idle > idle_timeout then Some (Idle_shutdown idle)
         else watch_loop idle_timeout rest stamp)"
| "watch_loop idle_timeout (Created now ev # rest) stamp =
     watch_loop idle_timeout rest (mark_event ev now stamp)"
| "watch_loop idle_timeout (KeyboardInterrupt # rest) stamp = Some Interrupt_shutdown"

section \<open>What a reader of a container sees\<close>

text \<open>
  Member names are unique within a group, at every level that \<open>visititems\<close> reaches:
  \<open>wf_members\<close> is that invariant of the container format.
\<close>

function wf_members :: "members \<Rightarrow> bool" where
  "wf_members [] = True"
| "wf_members ((n, Group g a) # ms) = (map_of ms n = None \<and> wf_members g \<and> wf_members ms)"
| "wf_members ((n, Dataset d s a) # ms) = (map_of ms n = None \<and> wf_members ms)"
| "wf_members ((n, Datatype a) # ms) = (map_of ms n = None \<and> wf_members ms)"
| "wf_members ((n, Again x) # ms) = (map_of ms n = None \<and> wf_members ms)"
| "wf_members ((n, SoftLink t) # ms) = (map_of ms n = None \<and> wf_members ms)"
| "wf_members ((n, ExternalLink f t) # ms) = (map_of ms n = None \<and> wf_members ms)"
  by pat_completeness auto
termination
  by (relation "measure (size_list (size_prod (\<lambda>_. 0) size))") auto








text \<open>
  A container of groups and datasets only, each under one hard link: no further hard
  link, no soft or external link, no committed datatype.
\<close>

function plain :: "members \<Rightarrow> bool" where
  "plain [] = True"
| "plain ((n, Group g a) # ms) = (plain g \<and> plain ms)"
| "plain ((n, Dataset d s a) # ms) = plain ms"
| "plain ((n, Datatype a) # ms) = False"
| "plain ((n, Again x) # ms) = False"
| "plain ((n, SoftLink t) # ms) = False"
| "plain ((n, ExternalLink f t) # ms) = False"
  by pat_completeness auto
termination
  by (relation "measure (size_list (size_prod (\<lambda>_. 0) size))") auto

text \<open>
  What the walk of \<open>compress_and_replace\<close> writes for a source: a dataset with the same
  payload under the given filter, a group for every group and for every committed
  datatype, nothing for the other members, and no attribute.
\<close>

function copied :: "storage \<Rightarrow> members \<Rightarrow> members" where
  "copied k [] = []"
| "copied k ((n, Dataset d s a) # ms) = (n, Dataset d k []) # copied k ms"
| "copied k ((n, Group g a) # ms) = (n, Group (copied k g) []) # copied k ms"
| "copied k ((n, Datatype a) # ms) = (n, Group [] []) # copied k ms"
| "copied k ((n, Again x) # ms) = copied k ms"
| "copied k ((n, SoftLink t) # ms) = copied k ms"
| "copied k ((n, ExternalLink f t) # ms) = copied k ms"
  by pat_completeness auto
termination
  by (relation "measure (\<lambda>(k, ms). size_list (size_prod (\<lambda>_. 0) size) ms)") auto

section \<open>Observing a run\<close>

text \<open>
  Calls by kind: the calls of the recompression and publication (creating the temporary
  file, opening the two containers, the move) and the calls of the stability probe; the
  directories in which a run asks for a temporary file, in order.
\<close>

fun compress_call :: "call \<Rightarrow> bool" where
  "compress_call (Mkstemp d r) = True"
| "compress_call (OpenRead p) = True"
| "compress_call (OpenWrite p) = True"
| "compress_call (Move a b) = True"
| "compress_call c = False"


fun mkstemp_dirs :: "call list \<Rightarrow> string list" where
  "mkstemp_dirs [] = []"
| "mkstemp_dirs (Mkstemp d r # cs) = d # mkstemp_dirs cs"
| "mkstemp_dirs (c # cs) = mkstemp_dirs cs"

text \<open>
  The calls of \<open>m\<close> rounds of the wait loop that found the file still changing, the first
  starting at time \<open>c\<close>: two size reads one second apart, the line that reports the wait
  and the pause of half a second. A file settles in round \<open>m\<close> with size \<open>s\<close> when the rounds
  before it find two different sizes and round \<open>m\<close> finds \<open>s\<close> twice, the line that reports
  the wait being printable if it is needed.
\<close>

fun probes :: "env \<Rightarrow> string \<Rightarrow> real \<Rightarrow> nat \<Rightarrow> call list" where
  "probes e p c 0 = []"
| "probes e p c (Suc m) =
     Getsize p (size_at e c p) # Sleep 1 # Getsize p (size_at e (c + 1) p)
       # Print (WAIT_Still_writing p) # Sleep (1 / 2) # probes e p (c + 3 / 2) m"

definition settles :: "env \<Rightarrow> string \<Rightarrow> real \<Rightarrow> nat \<Rightarrow> nat \<Rightarrow> bool" where
  "settles e p c m s =
     ((\<forall>k<m. \<exists>s1 s2. size_at e (c + 3 / 2 * real k) p = Some s1
           \<and> size_at e (c + 3 / 2 * real k + 1) p = Some s2 \<and> s1 \<noteq> s2)
      \<and> size_at e (c + 3 / 2 * real m) p = Some s
      \<and> size_at e (c + 3 / 2 * real m + 1) p = Some s
      \<and> (0 < m \<longrightarrow> \<not> raises e (PrintError (WAIT_Still_writing p))))"

text \<open>
  The files of a walk that pass the one-shot loop's name test, with their paths, in the
  order of the walk.
\<close>

definition matching :: "string \<Rightarrow> bool" where
  "matching fname = (\<not> (\<not> endswith fname ''.h5'' \<or> startswith fname ''tmp''))"

definition matching_files :: "(string \<times> string list \<times> string list) list \<Rightarrow> string list" where
  "matching_files walk =
     concat (map (\<lambda>(walk_root, dirs, fnames). map (path_join walk_root) (filter matching fnames)) walk)"

text \<open>
  The shared time stamp after a prefix of a watch run.
\<close>

fun stamp_after :: "step list \<Rightarrow> real \<Rightarrow> real" where
  "stamp_after [] stamp = stamp"
| "stamp_after (Created now ev # rest) stamp = stamp_after rest (mark_event ev now stamp)"
| "stamp_after (Wake now # rest) stamp = stamp_after rest stamp"
| "stamp_after (KeyboardInterrupt # rest) stamp = stamp_after rest stamp"

section \<open>Sample inputs\<close>

text \<open>
  A handler configured for gzip at level 4, an environment in which nothing fails and the
  watched file keeps its size, a small container, a disk holding it, and the same disk
  after the recompression.
\<close>

definition gzip4 :: handler where
  "gzip4 = \<lparr>compression = Some ''gzip'', compression_level = 4\<rparr>"

definition calm :: env where
  "calm = \<lparr>size_at = (\<lambda>t p. Some 100), tmp_names = [''abcd1234''], raises = (\<lambda>x. False)\<rparr>"

definition sample :: members where
  "sample = [(''g'', Group [(''x'', Dataset [1, 2, 3] (None, None) [])] []),
             (''y'', Dataset [7] (Some ''lzf'', None) [])]"

definition disk :: world where
  "disk = \<lparr>clock = 0, files = [''/data/a.h5'' \<mapsto> H5File sample], trace = [],
            last_event_time = 0\<rparr>"

definition disk_done :: world where
  "disk_done = \<lparr>clock = 0,
     files = [''/data/a.h5'' \<mapsto> H5File (copied (Some ''gzip'', Some 4) sample)],
     trace = [Mkstemp ''/data'' (Some ''/data/tmpabcd1234.h5''),
        Print (INFO_Compressing ''/data/a.h5'' ''/data/tmpabcd1234.h5''),
        OpenRead ''/data/a.h5'', OpenWrite ''/data/tmpabcd1234.h5'',
        Move ''/data/tmpabcd1234.h5'' ''/data/a.h5'', Print (DONE_Replaced ''/data/a.h5'')],
     last_event_time = 0\<rparr>"

text \<open>
  A creation event for the sample file; environments in which the file is still growing
  during the first two probes, in which it disappears between the two size reads, in
  which the library refuses one dataset, and in which the final move fails; a disk whose
  file is not a container, a disk with two containers, the disk after the refused dataset,
  the disk after one stable probe, a disk some time after the start of the watch and an
  environment in which the file grows during the first two probes made then; a walk and a
  watch run.
\<close>

definition created_a :: event where
  "created_a = \<lparr>is_directory = False, src_path = ''/data/a.h5''\<rparr>"

definition growing :: env where
  "growing = \<lparr>size_at = (\<lambda>t p. if t < 1 then Some 10 else if t < 2 then Some 20 else Some 30),
      tmp_names = [''abcd1234''], raises = (\<lambda>x. False)\<rparr>"

definition vanishing :: env where
  "vanishing = \<lparr>size_at = (\<lambda>t p. if t < 1 then Some 100 else None),
      tmp_names = [''abcd1234''], raises = (\<lambda>x. False)\<rparr>"

definition refusing :: env where
  "refusing = \<lparr>size_at = (\<lambda>t p. Some 100), tmp_names = [''abcd1234'', ''efgh5678''],
      raises = (\<lambda>x. x = CreateError [''y''])\<rparr>"

definition stuck :: env where
  "stuck = \<lparr>size_at = (\<lambda>t p. Some 100), tmp_names = [''abcd1234''],
      raises = (\<lambda>x. x = MoveError ''/data/tmpabcd1234.h5'' ''/data/a.h5'')\<rparr>"

definition disk_corrupt :: world where
  "disk_corrupt = \<lparr>clock = 0, files = [''/data/a.h5'' \<mapsto> NotH5], trace = [],
            last_event_time = 0\<rparr>"


definition disk_partial :: world where
  "disk_partial = \<lparr>clock = 0,
     files = [''/data/a.h5'' \<mapsto> H5File sample,
              ''/data/tmpabcd1234.h5'' \<mapsto>
                H5File [(''g'', Group [(''x'', Dataset [1, 2, 3] (Some ''gzip'', Some 4) [])] [])]],
     trace = [Mkstemp ''/data'' (Some ''/data/tmpabcd1234.h5''),
        Print (INFO_Compressing ''/data/a.h5'' ''/data/tmpabcd1234.h5''),
        OpenRead ''/data/a.h5'', OpenWrite ''/data/tmpabcd1234.h5''],
     last_event_time = 0\<rparr>"

definition disk_probed :: world where
  "disk_probed = \<lparr>clock = 1, files = [''/data/a.h5'' \<mapsto> H5File sample],
     trace = [Getsize ''/data/a.h5'' (Some 100), Sleep 1, Getsize ''/data/a.h5'' (Some 100)],
     last_event_time = 0\<rparr>"

definition disk_later :: world where
  "disk_later = \<lparr>clock = 42, files = [''/data/a.h5'' \<mapsto> H5File sample],
     trace = [Print (WAIT_Still_writing ''/data/old.h5'')], last_event_time = 30\<rparr>"

definition growing_later :: env where
  "growing_later = \<lparr>size_at = (\<lambda>t p. if t < 43 then Some 10 else if t < 44 then Some 20 else Some 30),
      tmp_names = [''abcd1234''], raises = (\<lambda>x. False)\<rparr>"


definition run_sample :: "step list" where
  "run_sample = [Wake 5, Created (11 / 2) created_a, Wake 6, Wake 10, Wake 11]"



text \<open>
  A file whose name holds a byte that the output stream cannot encode: every line that
  names the file raises when printed. A disk with that file and a second container, and
  the walk of its directory.
\<close>

definition odd_path :: string where
  "odd_path = ''/data/x'' @ [CHR 0xFF] @ ''.h5''"

fun line_path :: "line \<Rightarrow> string" where
  "line_path (INFO_Compressing s t) = s"
| "line_path (DONE_Replaced s) = s"
| "line_path (WAIT_Still_writing s) = s"
| "line_path (ERROR_Compression_failed s x) = s"

fun unprintable :: "string \<Rightarrow> error \<Rightarrow> bool" where
  "unprintable p (PrintError l) = (line_path l = p)"
| "unprintable p x = False"

definition strict_output :: env where
  "strict_output = \<lparr>size_at = (\<lambda>t p. Some 100), tmp_names = [''abcd1234'', ''efgh5678''],
      raises = unprintable odd_path\<rparr>"

definition created_odd :: event where
  "created_odd = \<lparr>is_directory = False, src_path = odd_path\<rparr>"

definition disk_odd :: world where
  "disk_odd = \<lparr>clock = 0,
      files = [odd_path \<mapsto> H5File sample,
               ''/data/b.h5'' \<mapsto> H5File [(''z'', Dataset [5] (None, None) [])]],
      trace = [], last_event_time = 0\<rparr>"

definition walk_odd :: "(string \<times> string list \<times> string list) list" where
  "walk_odd = [(''/data'', [], [''x'' @ [CHR 0xFF] @ ''.h5'', ''b.h5''])]"

section \<open>Basic facts about the world\<close>

lemma log_simps [simp]:
  "trace (log_call c w) = trace w @ [c]" "files (log_call c w) = files w"
  "clock (log_call c w) = clock w" "last_event_time (log_call c w) = last_event_time w"
  by (simp_all add: log_call_def)

lemma print_eq:
  "print e l w = (if raises e (PrintError l) then Inl (PrintError l) else Inr (), log_call (Print l) w)"
  by (simp add: print_def Let_def)

lemma sleep_simps [simp]:
  "trace (sleep d w) = trace w @ [Sleep d]" "files (sleep d w) = files w"
  "clock (sleep d w) = clock w + d" "last_event_time (sleep d w) = last_event_time w"
  by (simp_all add: sleep_def)

lemma is_stable_spec:
  "is_stable e p d w =
     (case size_at e (clock w) p of
        None \<Rightarrow> (Inl (GetsizeError p), w\<lparr>trace := trace w @ [Getsize p None]\<rparr>)
      | Some s1 \<Rightarrow>
          (case size_at e (clock w + d) p of
             None \<Rightarrow> (Inl (GetsizeError p),
                 w\<lparr>clock := clock w + d, trace := trace w @ [Getsize p (Some s1), Sleep d, Getsize p None]\<rparr>)
           | Some s2 \<Rightarrow> (Inr (s1 = s2),
                 w\<lparr>clock := clock w + d,
                   trace := trace w @ [Getsize p (Some s1), Sleep d, Getsize p (Some s2)]\<rparr>)))"
  by (simp add: is_stable_def getsize_def sleep_def log_call_def split: option.splits)

lemma is_stable_first_call:
  "\<exists>t. trace (snd (is_stable e p d w)) = trace w @ Getsize p (size_at e (clock w) p) # t"
  by (auto simp: is_stable_spec split: option.splits)

lemma is_stable_keeps:
  "last_event_time (snd (is_stable e p d w)) = last_event_time w"
  "files (snd (is_stable e p d w)) = files w"
  by (auto simp: is_stable_spec split: option.splits)

lemma wait_keeps:
  "last_event_time (snd (wait_until_stable n e p w)) = last_event_time w
   \<and> files (snd (wait_until_stable n e p w)) = files w"
proof (induction n arbitrary: w)
  case 0 show ?case by simp
next
  case (Suc n)
  obtain r w1 where r: "is_stable e p 1 w = (r, w1)" by (cases "is_stable e p 1 w")
  have k: "last_event_time w1 = last_event_time w" "files w1 = files w"
    using is_stable_keeps[of e p 1 w] r by simp_all
  let ?w2 = "sleep (1 / 2) (log_call (Print (WAIT_Still_writing p)) w1)"
  have "last_event_time (snd (wait_until_stable n e p ?w2)) = last_event_time w
      \<and> files (snd (wait_until_stable n e p ?w2)) = files w"
    using Suc.IH[of ?w2] k by simp
  then show ?case using r k
    by (auto simp: print_eq split: sum.splits bool.splits)
qed

lemma wait_trace_ext: "\<exists>t. trace (snd (wait_until_stable n e p w)) = trace w @ t"
proof (induction n arbitrary: w)
  case 0 show ?case by simp
next
  case (Suc n)
  obtain r w1 where r: "is_stable e p 1 w = (r, w1)" by (cases "is_stable e p 1 w")
  obtain t where t: "trace w1 = trace w @ Getsize p (size_at e (clock w) p) # t"
    using is_stable_first_call[of e p 1 w] r by auto
  let ?w2 = "sleep (1 / 2) (log_call (Print (WAIT_Still_writing p)) w1)"
  obtain t' where t': "trace (snd (wait_until_stable n e p ?w2)) = trace ?w2 @ t'"
    using Suc.IH by blast
  show ?case using r t t'
    by (auto simp: print_eq split: sum.splits bool.splits)
qed

lemma wait_first_call:
  "\<exists>t. trace (snd (wait_until_stable (Suc n) e p w)) = trace w @ Getsize p (size_at e (clock w) p) # t"
proof -
  obtain r w1 where r: "is_stable e p 1 w = (r, w1)" by (cases "is_stable e p 1 w")
  obtain t where t: "trace w1 = trace w @ Getsize p (size_at e (clock w) p) # t"
    using is_stable_first_call[of e p 1 w] r by auto
  let ?w2 = "sleep (1 / 2) (log_call (Print (WAIT_Still_writing p)) w1)"
  obtain t' where t': "trace (snd (wait_until_stable n e p ?w2)) = trace ?w2 @ t'"
    using wait_trace_ext by blast
  show ?thesis using r t t'
    by (auto simp: print_eq split: sum.splits bool.splits)
qed

lemmas compress_defs = compress_and_replace_def mkstemp_def h5_open_read_def h5_open_write_def
  shutil_move_def print_eq Let_def

lemma compress_stamp:
  "last_event_time (snd (compress_and_replace self e p w)) = last_event_time w"
  by (auto simp: compress_defs
      split: prod.splits sum.splits option.splits diskfile.splits if_splits)

lemma compress_trace_ext:
  "\<exists>t. trace (snd (compress_and_replace self e p w)) = trace w @ t"
  by (auto simp: compress_defs
      split: prod.splits sum.splits option.splits diskfile.splits if_splits)

lemma on_created_candidate:
  assumes "candidate ev"
  shows "on_created n self e ev w =
     (case wait_until_stable n e (src_path ev) (w\<lparr>last_event_time := clock w\<rparr>) of
        (None, w2) \<Rightarrow> (None, w2)
      | (Some (Inl x), w2) \<Rightarrow> (Some (Inl x), w2)
      | (Some (Inr u), w2) \<Rightarrow>
          (case compress_and_replace self e (src_path ev) w2 of
             (Inl x, w3) \<Rightarrow>
               (case print e (ERROR_Compression_failed (src_path ev) x) w3 of
                  (Inl y, w4) \<Rightarrow> (Some (Inl y), w4)
                | (Inr u', w4) \<Rightarrow> (Some (Inr (Failed x)), w4))
           | (Inr u', w3) \<Rightarrow> (Some (Inr Compressed), w3)))"
  using assms by (simp add: on_created_def candidate_def Let_def)

lemma on_created_not_candidate:
  "\<not> candidate ev \<Longrightarrow> on_created n self e ev w = (Some (Inr Ignored), w)"
  by (auto simp: on_created_def candidate_def Let_def)

lemma on_created_stamp:
  "last_event_time (snd (on_created n self e ev w)) = mark_event ev (clock w) (last_event_time w)"
proof (cases "candidate ev")
  case False
  then show ?thesis by (simp add: on_created_not_candidate mark_event_def)
next
  case True
  let ?w1 = "w\<lparr>last_event_time := clock w\<rparr>"
  obtain rw w2 where wt: "wait_until_stable n e (src_path ev) ?w1 = (rw, w2)"
    by (cases "wait_until_stable n e (src_path ev) ?w1")
  have s2: "last_event_time w2 = clock w" using wait_keeps[of n e "src_path ev" ?w1] wt by simp
  obtain c w3 where c: "compress_and_replace self e (src_path ev) w2 = (c, w3)"
    by (cases "compress_and_replace self e (src_path ev) w2")
  have s3: "last_event_time w3 = clock w" using compress_stamp[of self e "src_path ev" w2] c s2 by simp
  show ?thesis using True wt c s2 s3
    by (auto simp: on_created_candidate[OF True] mark_event_def print_eq split: option.splits sum.splits)
qed

section \<open>Temporary files\<close>

lemma basename_no_sep: "\<forall>c\<in>set n. not_sep c \<Longrightarrow> basename (d @ CHR ''/'' # n) = n"
proof -
  assume "\<forall>c\<in>set n. not_sep c"
  then have "takeWhile not_sep (rev n @ CHR ''/'' # rev d) = rev n @ takeWhile not_sep (CHR ''/'' # rev d)"
    by (intro takeWhile_append2) simp
  then show ?thesis by (simp add: basename_def not_sep_def)
qed

lemma split_head_cases:
  "fst (path_split p) = [] \<or> fst (path_split p) = replicate (length (fst (path_split p))) CHR ''/''
   \<or> (fst (path_split p) \<noteq> [] \<and> last (fst (path_split p)) \<noteq> CHR ''/'')"
proof -
  let ?h = "before_cut p"
  show ?thesis
  proof (cases "?h \<noteq> [] \<and> ?h \<noteq> replicate (length ?h) (CHR ''/'')")
    case False
    then show ?thesis by (auto simp: path_split_def Let_def)
  next
    case True
    then have fst: "fst (path_split p) = rstrip_sep ?h" by (simp add: path_split_def Let_def)
    let ?d = "dropWhile (\<lambda>c. \<not> not_sep c) (rev ?h)"
    show ?thesis
    proof (cases "?d = []")
      case True
      then show ?thesis using fst by (simp add: rstrip_sep_def)
    next
      case False
      then have "not_sep (hd ?d)" using hd_dropWhile[of "\<lambda>c. \<not> not_sep c" "rev ?h"] by blast
      then have "last (rev ?d) \<noteq> CHR ''/''" using False by (simp add: last_rev not_sep_def)
      then show ?thesis using fst False by (simp add: rstrip_sep_def)
    qed
  qed
qed

lemma before_cut_app: "\<forall>c\<in>set n. not_sep c \<Longrightarrow> before_cut (d @ n) = before_cut d"
proof -
  assume "\<forall>c\<in>set n. not_sep c"
  then have "dropWhile not_sep (rev n @ rev d) = dropWhile not_sep (rev d)"
    by (intro dropWhile_append2) simp
  then show ?thesis by (simp add: before_cut_def)
qed

lemma basename_app_sep: "\<forall>c\<in>set n. not_sep c \<Longrightarrow> d \<noteq> [] \<Longrightarrow> last d = CHR ''/'' \<Longrightarrow> basename (d @ n) = n"
proof -
  assume n: "\<forall>c\<in>set n. not_sep c" and d: "d \<noteq> []" "last d = CHR ''/''"
  then obtain d' where "d = d' @ [CHR ''/'']" by (metis append_butlast_last_id)
  then show ?thesis using basename_no_sep[OF n, of d'] by simp
qed

lemma before_cut_sep: "d \<noteq> [] \<Longrightarrow> last d = CHR ''/'' \<Longrightarrow> before_cut d = d"
proof -
  assume d: "d \<noteq> []" "last d = CHR ''/''"
  then obtain d' where "d = d' @ [CHR ''/'']" by (metis append_butlast_last_id)
  then show ?thesis by (simp add: before_cut_def not_sep_def)
qed

lemma rstrip_one: "d \<noteq> [] \<Longrightarrow> last d \<noteq> CHR ''/'' \<Longrightarrow> rstrip_sep (d @ ''/'') = d"
proof -
  assume d: "d \<noteq> []" "last d \<noteq> CHR ''/''"
  then obtain d' c where dd: "d = d' @ [c]" "c \<noteq> CHR ''/''" by (metis append_butlast_last_id)
  then show ?thesis by (simp add: rstrip_sep_def not_sep_def)
qed

lemma split_join_name:
  assumes n: "\<forall>c\<in>set n. not_sep c" and n0: "n \<noteq> []"
  shows "path_split (path_join (fst (path_split p)) n) = (fst (path_split p), n)"
proof -
  let ?d = "fst (path_split p)"
  have ns: "\<not> startswith n ''/''" using n n0 by (cases n) (auto simp: startswith_def not_sep_def)
  consider (empty) "?d = []" | (slashes) "?d \<noteq> []" "?d = replicate (length ?d) CHR ''/''"
    | (plain) "?d \<noteq> []" "last ?d \<noteq> CHR ''/''"
    using split_head_cases[of p] by blast
  then show ?thesis
  proof cases
    case empty
    have "before_cut n = []" using before_cut_app[OF n, of "[]"] by (simp add: before_cut_def)
    moreover have "basename n = n" using n by (simp add: basename_def takeWhile_eq_all_conv[THEN iffD2])
    ultimately show ?thesis using empty ns by (simp add: path_join_def path_split_def)
  next
    case slashes
    then have l: "last ?d = CHR ''/''" by (metis last_replicate length_0_conv)
    have e: "endswith ?d ''/''" using slashes(1) l
      by (cases "?d" rule: rev_cases) (auto simp: endswith_def)
    have j: "path_join ?d n = ?d @ n" using ns e by (simp add: path_join_def)
    have "before_cut (?d @ n) = ?d" using before_cut_app[OF n] before_cut_sep[OF slashes(1) l] by simp
    moreover have "basename (?d @ n) = n" using basename_app_sep[OF n slashes(1) l] .
    ultimately show ?thesis using j slashes by (simp add: path_split_def)
  next
    case plain
    have e: "\<not> endswith ?d ''/''" using plain
      by (cases "?d" rule: rev_cases) (auto simp: endswith_def)
    have j: "path_join ?d n = ?d @ ''/'' @ n" using ns e plain by (simp add: path_join_def)
    have bc: "before_cut (?d @ ''/'' @ n) = ?d @ ''/''"
      using before_cut_app[OF n, of "?d @ ''/''"] before_cut_sep[of "?d @ ''/''"] by simp
    have bn: "basename (?d @ ''/'' @ n) = n" using basename_no_sep[OF n, of ?d] by simp
    have nr: "?d @ ''/'' \<noteq> replicate (length (?d @ ''/'')) CHR ''/''"
    proof
      assume "?d @ ''/'' = replicate (length (?d @ ''/'')) CHR ''/''"
      then have "set (?d @ ''/'') \<subseteq> {CHR ''/''}" by (metis set_replicate_conv_if empty_subsetI subset_refl)
      then have "set ?d \<subseteq> {CHR ''/''}" by simp
      moreover have "last ?d \<in> set ?d" using plain(1) by (rule last_in_set)
      ultimately have "last ?d = CHR ''/''" by blast
      then show False using plain by simp
    qed
    show ?thesis using j bc bn nr rstrip_one[OF plain] by (simp add: path_split_def)
  qed
qed

lemma mkstemp_pick_Some:
  "mkstemp_pick fs suf d ns = Some f \<Longrightarrow> \<exists>n\<in>set ns. f = path_join d (''tmp'' @ n @ suf) \<and> fs f = None"
  by (induction ns) (auto simp: Let_def split: if_splits)

lemma compress_mkstemp_call:
  assumes "compress_and_replace self e p w = (r, w')"
    and "Mkstemp d (Some tmp) \<in> set (drop (length (trace w)) (trace w'))"
  shows "d = fst (path_split p) \<and> mkstemp_pick (files w) ''.h5'' d (tmp_names e) = Some tmp"
  using assms
  by (auto simp: compress_defs
      split: prod.splits sum.splits option.splits diskfile.splits if_splits)

text \<open>
  Claim C4. Every temporary file that \<open>compress_and_replace\<close> creates lies in the directory
  of the target file, is new, and has a base name that starts with \<open>tmp\<close> and ends with
  \<open>.h5\<close>; a creation event for it is ignored by the handler, whatever the handler, the
  environment and the world. (The names drawn by the temporary-file generator contain no
  slash.)
\<close>

theorem temp_file_is_ignored:
  assumes run: "compress_and_replace self e path w = (r, w')"
    and made: "Mkstemp d (Some tmp) \<in> set (drop (length (trace w)) (trace w'))"
    and names: "\<forall>n\<in>set (tmp_names e). CHR ''/'' \<notin> set n"
  shows "d = fst (path_split path) \<and> fst (path_split tmp) = fst (path_split path)
     \<and> startswith (basename tmp) ''tmp'' \<and> endswith (basename tmp) ''.h5''
     \<and> files w tmp = None
     \<and> (\<forall>fuel self' e' b w''.
          on_created fuel self' e' \<lparr>is_directory = b, src_path = tmp\<rparr> w'' = (Some (Inr Ignored), w''))"
proof -
  have d: "d = fst (path_split path)"
    and pick: "mkstemp_pick (files w) ''.h5'' d (tmp_names e) = Some tmp"
    using compress_mkstemp_call[OF run made] by blast+
  obtain n where n: "n \<in> set (tmp_names e)" "tmp = path_join d (''tmp'' @ n @ ''.h5'')" "files w tmp = None"
    using mkstemp_pick_Some[OF pick] by blast
  have ns: "\<forall>c\<in>set (''tmp'' @ n @ ''.h5''). not_sep c"
    using names n(1) by (auto simp: not_sep_def)
  have sp: "path_split tmp = (fst (path_split path), ''tmp'' @ n @ ''.h5'')"
    using split_join_name[OF ns, of path] n(2) d by simp
  have bn: "basename tmp = ''tmp'' @ n @ ''.h5''"
    using sp by (simp add: path_split_def Let_def)
  have sw: "startswith (basename tmp) ''tmp''" by (simp add: bn startswith_def)
  have ew: "endswith (basename tmp) ''.h5''" by (simp add: bn endswith_def)
  show ?thesis using d sp sw ew n(3) by (simp add: on_created_def)
qed

lemma path_split_sample: "path_split ''/data/a.h5'' = (''/data'', ''a.h5'')"
  by (simp add: path_split_def before_cut_def basename_def rstrip_sep_def not_sep_def)

lemmas eval_defs = compress_defs path_join_def startswith_def endswith_def log_call_def
  create_dataset_def create_group_def kwargs_of_def basename_def before_cut_def rstrip_sep_def
  not_sep_def path_split_def is_stable_def getsize_def sleep_def on_created_def

lemma compress_sample: "compress_and_replace gzip4 calm ''/data/a.h5'' disk = (Inr (), disk_done)"
  by (simp add: eval_defs gzip4_def calm_def disk_def disk_done_def sample_def fun_eq_iff)

theorem temp_file_is_ignored_witness:
  "compress_and_replace gzip4 calm ''/data/a.h5'' disk = (Inr (), disk_done)
   \<and> Mkstemp ''/data'' (Some ''/data/tmpabcd1234.h5'') \<in> set (drop (length (trace disk)) (trace disk_done))
   \<and> CHR ''/'' \<notin> set ''abcd1234''
   \<and> fst (path_split ''/data/tmpabcd1234.h5'') = fst (path_split ''/data/a.h5'')
   \<and> startswith (basename ''/data/tmpabcd1234.h5'') ''tmp''
   \<and> endswith (basename ''/data/tmpabcd1234.h5'') ''.h5''
   \<and> files disk ''/data/tmpabcd1234.h5'' = None
   \<and> on_created 1 gzip4 calm \<lparr>is_directory = False, src_path = ''/data/tmpabcd1234.h5''\<rparr> disk
       = (Some (Inr Ignored), disk)"
proof -
  have made: "Mkstemp ''/data'' (Some ''/data/tmpabcd1234.h5'') \<in> set (drop (length (trace disk)) (trace disk_done))"
    by (simp add: disk_def disk_done_def)
  have names: "\<forall>n\<in>set (tmp_names calm). CHR ''/'' \<notin> set n"
    by (simp add: calm_def)
  show ?thesis
    using temp_file_is_ignored [OF compress_sample made names] compress_sample made
    by simp
qed

section \<open>Copying the tree\<close>

lemma copy_items_append:
  "copy_items self e (xs @ ys) dst =
     (case copy_items self e xs dst of (None, d1) \<Rightarrow> copy_items self e ys d1 | (Some err, d1) \<Rightarrow> (Some err, d1))"
  by (induction xs arbitrary: dst) (auto split: sum.splits)

lemma replace_member_last:
  "map_of l n = None \<Longrightarrow> replace_member n v (l @ [(n, y)]) = l @ [(n, v)]"
  by (induction l) (auto split: if_splits)

lemma map_of_last: "map_of l n = None \<Longrightarrow> map_of (l @ [(n, y)]) n = Some y"
  by (induction l) (auto split: if_splits)

lemma h5_create_below:
  assumes "map_of l n = None" "p \<noteq> []"
  shows "h5_create (n # p) y (l @ [(n, Group g a)])
     = map_option (\<lambda>g'. l @ [(n, Group g' a)]) (h5_create p y g)"
proof -
  obtain q qs where p: "p = q # qs" using assms(2) by (cases p) auto
  show ?thesis
    unfolding p using map_of_last[OF assms(1), of "Group g a"] replace_member_last[OF assms(1)]
    by (simp add: map_option_case split: option.splits)
qed

lemma recurse_below:
  assumes "map_of l n = None" "p \<noteq> []" "\<forall>x. \<not> raises e x" "recurse self e p x g = Inr g'"
  shows "recurse self e (n # p) x (l @ [(n, Group g a)]) = Inr (l @ [(n, Group g' a)])"
  using assms(3,4) h5_create_below[OF assms(1,2)]
  by (cases x) (auto simp: create_dataset_def create_group_def split: option.splits)

lemma copy_items_below:
  assumes "map_of l n = None" "\<forall>x. \<not> raises e x"
  shows "\<forall>(p, x)\<in>set items. p \<noteq> [] \<Longrightarrow> copy_items self e items g = (None, g')
    \<Longrightarrow> copy_items self e (map (\<lambda>(p, x). (n # p, x)) items) (l @ [(n, Group g a)])
        = (None, l @ [(n, Group g' a)])"
proof (induction items arbitrary: g)
  case Nil then show ?case by simp
next
  case (Cons it items)
  obtain p x where it: "it = (p, x)" by (cases it)
  from Cons.prems(2) obtain g1 where g1: "recurse self e p x g = Inr g1"
    and rest: "copy_items self e items g1 = (None, g')"
    by (auto simp: it split: sum.splits)
  have p: "p \<noteq> []" using Cons.prems(1) it by auto
  have "recurse self e (n # p) x (l @ [(n, Group g a)]) = Inr (l @ [(n, Group g1 a)])"
    using recurse_below[OF assms(1) p assms(2) g1] .
  moreover have "copy_items self e (map (\<lambda>(p, x). (n # p, x)) items) (l @ [(n, Group g1 a)])
      = (None, l @ [(n, Group g' a)])"
    using Cons.IH[OF _ rest] Cons.prems(1) by simp
  ultimately show ?case by (simp add: it)
qed

lemma visititems_nonempty: "\<forall>(p, x)\<in>set (visititems ms). p \<noteq> []"
  by (induction ms rule: visititems.induct) auto

lemma fresh_after:
  "\<forall>(m, x)\<in>set ((n, y) # ms). map_of acc m = None \<Longrightarrow> map_of ms n = None
    \<Longrightarrow> \<forall>(m, x)\<in>set ms. map_of (acc @ [(n, z)]) m = None"
  by (auto simp: map_of_eq_None_iff image_iff)

lemma copy_visititems:
  assumes nr: "\<forall>x. \<not> raises e x"
  shows "wf_members ms \<Longrightarrow> \<forall>(n, x)\<in>set ms. map_of acc n = None
    \<Longrightarrow> copy_items self e (visititems ms) acc = (None, acc @ copied (kwargs_of self) ms)"
proof (induction ms arbitrary: acc rule: visititems.induct)
  case 1 then show ?case by simp
next
  case (2 n d s a ms)
  let ?k = "kwargs_of self"
  have fresh: "map_of acc n = None" using "2.prems"(2) by simp
  have step: "recurse self e [n] (Dataset d s a) acc = Inr (acc @ [(n, Dataset d ?k [])])"
    using nr fresh by (simp add: create_dataset_def)
  have "\<forall>(m, x)\<in>set ms. map_of (acc @ [(n, Dataset d ?k [])]) m = None"
    using fresh_after[OF "2.prems"(2)] "2.prems"(1) by simp
  then have "copy_items self e (visititems ms) (acc @ [(n, Dataset d ?k [])])
     = (None, (acc @ [(n, Dataset d ?k [])]) @ copied ?k ms)"
    using "2.IH" "2.prems"(1) by simp
  then show ?case using step by simp
next
  case (3 n g a ms)
  let ?k = "kwargs_of self"
  have fresh: "map_of acc n = None" using "3.prems"(2) by simp
  have step: "recurse self e [n] (Group g a) acc = Inr (acc @ [(n, Group [] [])])"
    using nr fresh by (simp add: create_group_def)
  have inner: "copy_items self e (visititems g) [] = (None, copied ?k g)"
    using "3.IH"(1)[of "[]"] "3.prems"(1) by simp
  have below: "copy_items self e (map (\<lambda>(p, x). (n # p, x)) (visititems g)) (acc @ [(n, Group [] [])])
      = (None, acc @ [(n, Group (copied ?k g) [])])"
    using copy_items_below[OF fresh nr visititems_nonempty inner] .
  have "\<forall>(m, x)\<in>set ms. map_of (acc @ [(n, Group (copied ?k g) [])]) m = None"
    using fresh_after[OF "3.prems"(2)] "3.prems"(1) by simp
  then have tail: "copy_items self e (visititems ms) (acc @ [(n, Group (copied ?k g) [])])
     = (None, (acc @ [(n, Group (copied ?k g) [])]) @ copied ?k ms)"
    using "3.IH"(2) "3.prems"(1) by simp
  show ?case using step below tail by (simp add: copy_items_append)
next
  case (4 n a ms)
  let ?k = "kwargs_of self"
  have fresh: "map_of acc n = None" using "4.prems"(2) by simp
  have step: "recurse self e [n] (Datatype a) acc = Inr (acc @ [(n, Group [] [])])"
    using nr fresh by (simp add: create_group_def)
  have "\<forall>(m, x)\<in>set ms. map_of (acc @ [(n, Group [] [])]) m = None"
    using fresh_after[OF "4.prems"(2)] "4.prems"(1) by simp
  then have "copy_items self e (visititems ms) (acc @ [(n, Group [] [])])
     = (None, (acc @ [(n, Group [] [])]) @ copied ?k ms)"
    using "4.IH" "4.prems"(1) by simp
  then show ?case using step by simp
next
  case (5 n x ms)
  then show ?case by simp
next
  case (6 n t ms)
  then show ?case by simp
next
  case (7 n f t ms)
  then show ?case by simp
qed















section \<open>What a run of the recompression does\<close>

lemma mkstemp_pick_fresh:
  "mkstemp_pick fs suf d ns = Some f \<Longrightarrow> fs f = None"
  using mkstemp_pick_Some by blast


lemma recurse_error_kind:
  "recurse self e p x dst = Inl err \<Longrightarrow> err = ReadDataError p \<or> err = CreateError p"
  by (cases x) (auto simp: create_dataset_def create_group_def split: if_splits option.splits)

lemma copy_items_error_kind:
  "copy_items self e items dst = (Some err, d) \<Longrightarrow> \<exists>p. err = ReadDataError p \<or> err = CreateError p"
proof (induction items arbitrary: dst)
  case Nil then show ?case by simp
next
  case (Cons it items)
  obtain p x where it: "it = (p, x)" by (cases it)
  show ?case
  proof (cases "recurse self e p x dst")
    case (Inl a)
    then show ?thesis using Cons.prems recurse_error_kind[OF Inl] by (auto simp: it)
  next
    case (Inr b)
    then show ?thesis using Cons.prems Cons.IH[of b] by (simp add: it)
  qed
qed

lemma compress_failure:
  assumes "compress_and_replace self e p w = (Inl x, w')"
  shows "(x = MkstempError (fst (path_split p)) \<and> files w' = files w)
     \<or> (\<exists>tmp c. mkstemp_pick (files w) ''.h5'' (fst (path_split p)) (tmp_names e) = Some tmp
          \<and> files w' = (files w)(tmp \<mapsto> c) \<and> x \<noteq> MkstempError (fst (path_split p))
          \<and> x \<noteq> PrintError (DONE_Replaced p))
     \<or> (\<exists>tmp dst. mkstemp_pick (files w) ''.h5'' (fst (path_split p)) (tmp_names e) = Some tmp
          \<and> files w' = ((files w)(p \<mapsto> H5File dst))(tmp := None)
          \<and> x = PrintError (DONE_Replaced p))"
  using assms
  by (auto simp: compress_defs fun_eq_iff dest: copy_items_error_kind
      split: prod.splits sum.splits option.splits diskfile.splits if_splits)

lemma compress_trace_shape:
  assumes "compress_and_replace self e p w = (r, w')"
  shows "(r = Inl (MkstempError (fst (path_split p))) \<and> trace w' = trace w @ [Mkstemp (fst (path_split p)) None])
     \<or> (\<exists>tmp t. mkstemp_pick (files w) ''.h5'' (fst (path_split p)) (tmp_names e) = Some tmp
          \<and> trace w' = trace w @ Mkstemp (fst (path_split p)) (Some tmp)
               # Print (INFO_Compressing p tmp) # t
          \<and> set t \<subseteq> {OpenRead p, OpenWrite tmp, Move tmp p, Print (DONE_Replaced p)}
          \<and> (if raises e (PrintError (INFO_Compressing p tmp))
              then t = [] \<and> r = Inl (PrintError (INFO_Compressing p tmp))
              else \<exists>t'. t = OpenRead p # t'
                 \<and> set t' \<subseteq> {OpenWrite tmp, Move tmp p, Print (DONE_Replaced p)}))"
  using assms
  by (auto simp: compress_defs
      split: prod.splits sum.splits option.splits diskfile.splits if_splits)

lemma compress_error_kind:
  assumes "compress_and_replace self e path w = (Inl x, w')"
    and "mkstemp_pick (files w) ''.h5'' (fst (path_split path)) (tmp_names e) = Some tmp"
  shows "x = MkstempError (fst (path_split path)) \<or> x = PrintError (INFO_Compressing path tmp)
     \<or> x = OpenReadError path \<or> x = OpenWriteError tmp \<or> x = MoveError tmp path
     \<or> x = PrintError (DONE_Replaced path)
     \<or> (\<exists>q. x = ReadDataError q \<or> x = CreateError q)"
  using assms
  by (auto simp: compress_defs dest: copy_items_error_kind
      split: prod.splits sum.splits option.splits diskfile.splits if_splits)

section \<open>The recompressed container\<close>

lemma compress_and_replace_succeeds:
  assumes src: "files w p = Some (H5File src)" and wf: "wf_members src"
    and quiet: "\<forall>x. \<not> raises e x"
    and pick: "mkstemp_pick (files w) ''.h5'' (fst (path_split p)) (tmp_names e) = Some tmp"
  shows "fst (compress_and_replace self e p w) = Inr ()
     \<and> files (snd (compress_and_replace self e p w))
         = ((files w)(p \<mapsto> H5File (copied (kwargs_of self) src)))(tmp := None)"
proof -
  have "files w tmp = None" using mkstemp_pick_fresh[OF pick] .
  then have ne: "tmp \<noteq> p" using src by auto
  have copy: "copy_items self e (visititems src) [] = (None, copied (kwargs_of self) src)"
    using copy_visititems[OF quiet wf, of "[]" self] by simp
  show ?thesis
    using src ne quiet pick copy
    by (auto simp: compress_defs fun_eq_iff split: prod.splits sum.splits option.splits diskfile.splits)
qed





section \<open>Failed runs\<close>

lemma compress_refused:
  "compress_and_replace gzip4 refusing ''/data/a.h5'' disk = (Inl (CreateError [''y'']), disk_partial)"
  by (simp add: eval_defs gzip4_def refusing_def disk_def disk_partial_def sample_def fun_eq_iff)

lemma compress_corrupt:
  "compress_and_replace gzip4 calm ''/data/a.h5'' disk_corrupt =
     (Inl (OpenReadError ''/data/a.h5''),
      \<lparr>clock = 0, files = [''/data/a.h5'' \<mapsto> NotH5, ''/data/tmpabcd1234.h5'' \<mapsto> NotH5],
       trace = [Mkstemp ''/data'' (Some ''/data/tmpabcd1234.h5''),
          Print (INFO_Compressing ''/data/a.h5'' ''/data/tmpabcd1234.h5''), OpenRead ''/data/a.h5''],
       last_event_time = 0\<rparr>)"
  by (simp add: eval_defs gzip4_def calm_def disk_corrupt_def fun_eq_iff)

lemma compress_stuck:
  "compress_and_replace gzip4 stuck ''/data/a.h5'' disk =
     (Inl (MoveError ''/data/tmpabcd1234.h5'' ''/data/a.h5''),
      \<lparr>clock = 0, files = [''/data/a.h5'' \<mapsto> H5File sample,
            ''/data/tmpabcd1234.h5'' \<mapsto> H5File (copied (Some ''gzip'', Some 4) sample)],
       trace = [Mkstemp ''/data'' (Some ''/data/tmpabcd1234.h5''),
          Print (INFO_Compressing ''/data/a.h5'' ''/data/tmpabcd1234.h5''), OpenRead ''/data/a.h5'',
          OpenWrite ''/data/tmpabcd1234.h5'', Move ''/data/tmpabcd1234.h5'' ''/data/a.h5''],
       last_event_time = 0\<rparr>)"
  by (simp add: eval_defs gzip4_def stuck_def disk_def sample_def fun_eq_iff)

text \<open>
  Claim C6. When \<open>compress_and_replace\<close> fails before the final move (the temporary
  file cannot be created, the first line cannot be printed, the source does not open or
  read, the destination cannot be opened or written: every failure but that of the move
  and of the line printed after it), every file that existed before the run is unchanged,
  the original among them, and the only path whose content changed is the temporary
  file's.
\<close>

theorem failure_leaves_original:
  assumes run: "compress_and_replace self e path w = (Inl x, w')"
    and early: "\<forall>a b. x \<noteq> MoveError a b"
    and before: "x \<noteq> PrintError (DONE_Replaced path)"
  shows "(\<forall>q. files w q \<noteq> None \<longrightarrow> files w' q = files w q)
     \<and> (\<forall>q. files w' q \<noteq> files w q \<longrightarrow>
           mkstemp_pick (files w) ''.h5'' (fst (path_split path)) (tmp_names e) = Some q)"
proof -
  from compress_failure[OF run] before
  consider (none) "files w' = files w"
    | (tmp) tmp c where "mkstemp_pick (files w) ''.h5'' (fst (path_split path)) (tmp_names e) = Some tmp"
        "files w' = (files w)(tmp \<mapsto> c)"
    by blast
  then show ?thesis
  proof cases
    case none
    then show ?thesis by simp
  next
    case tmp
    have fresh: "files w tmp = None" using mkstemp_pick_fresh[OF tmp(1)] .
    show ?thesis using tmp fresh by auto
  qed
qed

theorem failure_leaves_original_witness:
  "compress_and_replace gzip4 refusing ''/data/a.h5'' disk = (Inl (CreateError [''y'']), disk_partial)
   \<and> files disk ''/data/a.h5'' = Some (H5File sample)
   \<and> files disk_partial ''/data/a.h5'' = files disk ''/data/a.h5''
   \<and> files disk_partial ''/data/tmpabcd1234.h5'' \<noteq> files disk ''/data/tmpabcd1234.h5''
   \<and> mkstemp_pick (files disk) ''.h5'' (fst (path_split ''/data/a.h5'')) (tmp_names refusing)
       = Some ''/data/tmpabcd1234.h5''"
proof -
  have early: "\<forall>a b. CreateError [''y''] \<noteq> MoveError a b" by simp
  have before: "CreateError [''y''] \<noteq> PrintError (DONE_Replaced ''/data/a.h5'')" by simp
  have changed: "files disk_partial ''/data/tmpabcd1234.h5'' \<noteq> files disk ''/data/tmpabcd1234.h5''"
    by (simp add: disk_def disk_partial_def)
  have kept: "files disk ''/data/a.h5'' = Some (H5File sample)" by (simp add: disk_def)
  note t = failure_leaves_original [OF compress_refused early before]
  have same: "files disk_partial ''/data/a.h5'' = files disk ''/data/a.h5''"
    using t [THEN conjunct1, rule_format, of "''/data/a.h5''"] kept by simp
  have pick: "mkstemp_pick (files disk) ''.h5'' (fst (path_split ''/data/a.h5'')) (tmp_names refusing)
       = Some ''/data/tmpabcd1234.h5''"
    using t [THEN conjunct2, rule_format, OF changed] .
  show ?thesis
    by (rule conjI [OF compress_refused conjI [OF kept conjI [OF same conjI [OF changed pick]]]])
qed

text \<open>
  Claim C10. In every run of \<open>compress_and_replace\<close> that gets its temporary file, the
  file is new and is created before the source is opened, and no later call removes it
  but the final move: whenever a step between the creation and the end of the move fails
  (printing the first line, opening or reading the source, opening or writing the
  destination, or the move), the temporary file is on disk afterwards.
\<close>

theorem temp_file_left_behind:
  assumes run: "compress_and_replace self e path w = (r, w')"
    and made: "r \<noteq> Inl (MkstempError (fst (path_split path)))"
  shows "\<exists>tmp t. files w tmp = None
     \<and> trace w' = trace w @ Mkstemp (fst (path_split path)) (Some tmp)
          # Print (INFO_Compressing path tmp) # t
     \<and> (\<forall>c\<in>set t. c = OpenRead path \<or> c = OpenWrite tmp \<or> c = Move tmp path
            \<or> c = Print (DONE_Replaced path))
     \<and> (\<not> raises e (PrintError (INFO_Compressing path tmp)) \<longrightarrow>
          (\<exists>t'. t = OpenRead path # t'
            \<and> (\<forall>c\<in>set t'. c = OpenWrite tmp \<or> c = Move tmp path \<or> c = Print (DONE_Replaced path))))
     \<and> (\<forall>x. r = Inl x \<and> x \<noteq> PrintError (DONE_Replaced path) \<longrightarrow> files w' tmp \<noteq> None
          \<and> (x = PrintError (INFO_Compressing path tmp) \<or> x = OpenReadError path
              \<or> x = OpenWriteError tmp \<or> x = MoveError tmp path
              \<or> (\<exists>q. x = ReadDataError q \<or> x = CreateError q)))"
proof -
  from compress_trace_shape[OF run] made obtain tmp t where
    pick: "mkstemp_pick (files w) ''.h5'' (fst (path_split path)) (tmp_names e) = Some tmp"
    and tr: "trace w' = trace w @ Mkstemp (fst (path_split path)) (Some tmp)
          # Print (INFO_Compressing path tmp) # t"
    and st: "set t \<subseteq> {OpenRead path, OpenWrite tmp, Move tmp path, Print (DONE_Replaced path)}"
    and sh: "if raises e (PrintError (INFO_Compressing path tmp))
              then t = [] \<and> r = Inl (PrintError (INFO_Compressing path tmp))
              else \<exists>t'. t = OpenRead path # t'
                 \<and> set t' \<subseteq> {OpenWrite tmp, Move tmp path, Print (DONE_Replaced path)}"
    by blast
  have fresh: "files w tmp = None" using mkstemp_pick_fresh[OF pick] .
  have calls: "\<forall>c\<in>set t. c = OpenRead path \<or> c = OpenWrite tmp \<or> c = Move tmp path
            \<or> c = Print (DONE_Replaced path)"
    using st by auto
  have opened: "\<not> raises e (PrintError (INFO_Compressing path tmp)) \<longrightarrow>
          (\<exists>t'. t = OpenRead path # t'
            \<and> (\<forall>c\<in>set t'. c = OpenWrite tmp \<or> c = Move tmp path \<or> c = Print (DONE_Replaced path)))"
  proof
    assume "\<not> raises e (PrintError (INFO_Compressing path tmp))"
    then obtain t' where t': "t = OpenRead path # t'"
      "set t' \<subseteq> {OpenWrite tmp, Move tmp path, Print (DONE_Replaced path)}"
      using sh by auto
    have "\<forall>c\<in>set t'. c = OpenWrite tmp \<or> c = Move tmp path \<or> c = Print (DONE_Replaced path)"
      using t'(2) by auto
    then show "\<exists>t'. t = OpenRead path # t'
            \<and> (\<forall>c\<in>set t'. c = OpenWrite tmp \<or> c = Move tmp path \<or> c = Print (DONE_Replaced path))"
      using t'(1) by blast
  qed
  have left: "\<forall>x. r = Inl x \<and> x \<noteq> PrintError (DONE_Replaced path) \<longrightarrow> files w' tmp \<noteq> None
          \<and> (x = PrintError (INFO_Compressing path tmp) \<or> x = OpenReadError path
              \<or> x = OpenWriteError tmp \<or> x = MoveError tmp path
              \<or> (\<exists>q. x = ReadDataError q \<or> x = CreateError q))"
  proof (intro allI impI)
    fix x assume a: "r = Inl x \<and> x \<noteq> PrintError (DONE_Replaced path)"
    have fail: "compress_and_replace self e path w = (Inl x, w')" using run a by simp
    have nm: "x \<noteq> MkstempError (fst (path_split path))" using made a by simp
    from compress_failure[OF fail] nm a pick obtain c where "files w' = (files w)(tmp \<mapsto> c)"
      by auto
    then have "files w' tmp \<noteq> None" by simp
    then show "files w' tmp \<noteq> None
          \<and> (x = PrintError (INFO_Compressing path tmp) \<or> x = OpenReadError path
              \<or> x = OpenWriteError tmp \<or> x = MoveError tmp path
              \<or> (\<exists>q. x = ReadDataError q \<or> x = CreateError q))"
      using compress_error_kind[OF fail pick] nm a by blast
  qed
  show ?thesis using fresh tr calls opened left by blast
qed

theorem temp_file_left_behind_witness:
  "fst (compress_and_replace gzip4 calm ''/data/a.h5'' disk_corrupt) = Inl (OpenReadError ''/data/a.h5'')
   \<and> (\<exists>tmp t. files disk_corrupt tmp = None
        \<and> files (snd (compress_and_replace gzip4 calm ''/data/a.h5'' disk_corrupt)) tmp \<noteq> None
        \<and> trace (snd (compress_and_replace gzip4 calm ''/data/a.h5'' disk_corrupt))
            = trace disk_corrupt @ Mkstemp (fst (path_split ''/data/a.h5'')) (Some tmp)
                # Print (INFO_Compressing ''/data/a.h5'' tmp) # t)
   \<and> fst (compress_and_replace gzip4 stuck ''/data/a.h5'' disk)
        = Inl (MoveError ''/data/tmpabcd1234.h5'' ''/data/a.h5'')
   \<and> (\<exists>tmp. files disk tmp = None
        \<and> files (snd (compress_and_replace gzip4 stuck ''/data/a.h5'' disk)) tmp \<noteq> None)"
proof -
  let ?p = "''/data/a.h5''"
  let ?xa = "OpenReadError ?p"
  let ?xb = "MoveError ''/data/tmpabcd1234.h5'' ?p"
  let ?wa = "snd (compress_and_replace gzip4 calm ?p disk_corrupt)"
  let ?wb = "snd (compress_and_replace gzip4 stuck ?p disk)"
  have fa: "fst (compress_and_replace gzip4 calm ?p disk_corrupt) = Inl ?xa"
    by (simp add: compress_corrupt)
  have fb: "fst (compress_and_replace gzip4 stuck ?p disk) = Inl ?xb"
    by (simp add: compress_stuck)
  have a: "compress_and_replace gzip4 calm ?p disk_corrupt = (Inl ?xa, ?wa)"
    by (simp add: compress_corrupt)
  have b: "compress_and_replace gzip4 stuck ?p disk = (Inl ?xb, ?wb)"
    by (simp add: compress_stuck)
  have a': "(Inl ?xa :: error + unit) \<noteq> Inl (MkstempError (fst (path_split ?p)))" by simp
  have b': "(Inl ?xb :: error + unit) \<noteq> Inl (MkstempError (fst (path_split ?p)))" by simp
  have a'': "(Inl ?xa :: error + unit) = Inl ?xa \<and> ?xa \<noteq> PrintError (DONE_Replaced ?p)" by simp
  have b'': "(Inl ?xb :: error + unit) = Inl ?xb \<and> ?xb \<noteq> PrintError (DONE_Replaced ?p)" by simp
  from temp_file_left_behind [OF a a'] obtain tmp t where
    f1: "files disk_corrupt tmp = None"
    and t1: "trace ?wa = trace disk_corrupt @ Mkstemp (fst (path_split ?p)) (Some tmp)
          # Print (INFO_Compressing ?p tmp) # t"
    and l1: "\<forall>x. (Inl ?xa :: error + unit) = Inl x \<and> x \<noteq> PrintError (DONE_Replaced ?p) \<longrightarrow>
          files ?wa tmp \<noteq> None
          \<and> (x = PrintError (INFO_Compressing ?p tmp) \<or> x = OpenReadError ?p
              \<or> x = OpenWriteError tmp \<or> x = MoveError tmp ?p
              \<or> (\<exists>q. x = ReadDataError q \<or> x = CreateError q))"
    by (elim exE conjE) (rule that)
  from l1 [rule_format, OF a''] have n1: "files ?wa tmp \<noteq> None" by (rule conjunct1)
  have wa: "\<exists>tmp t. files disk_corrupt tmp = None \<and> files ?wa tmp \<noteq> None
        \<and> trace ?wa = trace disk_corrupt @ Mkstemp (fst (path_split ?p)) (Some tmp)
                # Print (INFO_Compressing ?p tmp) # t"
    using f1 n1 t1 by (intro exI conjI)
  from temp_file_left_behind [OF b b'] obtain tmp' t' where
    f2: "files disk tmp' = None"
    and l2: "\<forall>x. (Inl ?xb :: error + unit) = Inl x \<and> x \<noteq> PrintError (DONE_Replaced ?p) \<longrightarrow>
          files ?wb tmp' \<noteq> None
          \<and> (x = PrintError (INFO_Compressing ?p tmp') \<or> x = OpenReadError ?p
              \<or> x = OpenWriteError tmp' \<or> x = MoveError tmp' ?p
              \<or> (\<exists>q. x = ReadDataError q \<or> x = CreateError q))"
    by (elim exE conjE) (rule that)
  from l2 [rule_format, OF b''] have n2: "files ?wb tmp' \<noteq> None" by (rule conjunct1)
  have wb: "\<exists>tmp. files disk tmp = None \<and> files ?wb tmp \<noteq> None"
    using f2 n2 by (intro exI conjI)
  show ?thesis by (rule conjI [OF fa conjI [OF wa conjI [OF fb wb]]])
qed

section \<open>The stability wait\<close>

lemma wait_trace:
  "wait_until_stable n e p w = (r, w') \<Longrightarrow>
     \<exists>t. trace w' = trace w @ t \<and> (\<forall>c\<in>set t. \<not> compress_call c)
       \<and> (r = Some (Inr ()) \<longrightarrow> (\<exists>a s. t = a @ [Getsize p (Some s), Sleep 1, Getsize p (Some s)]))"
proof (induction n arbitrary: w)
  case 0 then show ?case by auto
next
  case (Suc n)
  show ?case
  proof (cases "size_at e (clock w) p")
    case None
    then show ?thesis using Suc.prems by (auto simp: is_stable_spec)
  next
    case (Some s1)
    show ?thesis
    proof (cases "size_at e (clock w + 1) p")
      case None
      then show ?thesis using Suc.prems Some by (auto simp: is_stable_spec)
    next
      case s2: (Some s2)
      show ?thesis
      proof (cases "s1 = s2")
        case True
        then show ?thesis using Suc.prems Some s2 by (auto simp: is_stable_spec)
      next
        case False
        let ?w0 = "w\<lparr>clock := clock w + 1, trace := trace w @ [Getsize p (Some s1), Sleep 1, Getsize p (Some s2)]\<rparr>"
        show ?thesis
        proof (cases "raises e (PrintError (WAIT_Still_writing p))")
          case True
          then have "r = Some (Inl (PrintError (WAIT_Still_writing p)))"
            "w' = log_call (Print (WAIT_Still_writing p)) ?w0"
            using Suc.prems Some s2 False by (simp_all add: is_stable_spec print_eq)
          then show ?thesis by simp
        next
          case quiet: False
          let ?w1 = "sleep (1 / 2) (log_call (Print (WAIT_Still_writing p)) ?w0)"
          have rec: "wait_until_stable n e p ?w1 = (r, w')"
            using Suc.prems Some s2 False quiet by (simp add: is_stable_spec print_eq)
          obtain t where t: "trace w' = trace ?w1 @ t" "\<forall>c\<in>set t. \<not> compress_call c"
            "r = Some (Inr ()) \<longrightarrow> (\<exists>a s. t = a @ [Getsize p (Some s), Sleep 1, Getsize p (Some s)])"
            using Suc.IH[OF rec] by blast
          let ?pre = "[Getsize p (Some s1), Sleep 1, Getsize p (Some s2), Print (WAIT_Still_writing p), Sleep (1 / 2)]"
          have tr: "trace w' = trace w @ (?pre @ t)" using t(1) by simp
          have nc: "\<forall>c\<in>set (?pre @ t). \<not> compress_call c" using t(2) by auto
          have st: "r = Some (Inr ()) \<longrightarrow> (\<exists>a s. ?pre @ t = a @ [Getsize p (Some s), Sleep 1, Getsize p (Some s)])"
          proof
            assume "r = Some (Inr ())"
            then obtain a s where "t = a @ [Getsize p (Some s), Sleep 1, Getsize p (Some s)]" using t(3) by blast
            then have "?pre @ t = (?pre @ a) @ [Getsize p (Some s), Sleep 1, Getsize p (Some s)]" by simp
            then show "\<exists>a s. ?pre @ t = a @ [Getsize p (Some s), Sleep 1, Getsize p (Some s)]" by blast
          qed
          show ?thesis using tr nc st by blast
        qed
      qed
    qed
  qed
qed

lemma wait_unstable:
  "\<forall>k<n. \<exists>s1 s2. size_at e (clock w + 3 / 2 * real k) p = Some s1
        \<and> size_at e (clock w + 3 / 2 * real k + 1) p = Some s2 \<and> s1 \<noteq> s2
   \<Longrightarrow> fst (wait_until_stable n e p w)
        = (if 0 < n \<and> raises e (PrintError (WAIT_Still_writing p))
           then Some (Inl (PrintError (WAIT_Still_writing p))) else None)"
proof (induction n arbitrary: w)
  case 0 then show ?case by simp
next
  case (Suc n)
  from Suc.prems[rule_format, of 0] obtain s1 s2 where
    s: "size_at e (clock w) p = Some s1" "size_at e (clock w + 1) p = Some s2" "s1 \<noteq> s2"
    by auto
  show ?case
  proof (cases "raises e (PrintError (WAIT_Still_writing p))")
    case True
    then show ?thesis using s by (simp add: is_stable_spec print_eq)
  next
    case quiet: False
    let ?w1 = "sleep (1 / 2) (log_call (Print (WAIT_Still_writing p))
           (w\<lparr>clock := clock w + 1, trace := trace w @ [Getsize p (Some s1), Sleep 1, Getsize p (Some s2)]\<rparr>))"
    have ck: "clock ?w1 = clock w + 3 / 2" by simp
    have "\<forall>k<n. \<exists>s1 s2. size_at e (clock ?w1 + 3 / 2 * real k) p = Some s1
        \<and> size_at e (clock ?w1 + 3 / 2 * real k + 1) p = Some s2 \<and> s1 \<noteq> s2"
    proof (intro allI impI)
      fix k assume "k < n"
      then have "Suc k < Suc n" by simp
      from Suc.prems[rule_format, OF this] obtain a b where
        ab: "size_at e (clock w + 3 / 2 * real (Suc k)) p = Some a"
          "size_at e (clock w + 3 / 2 * real (Suc k) + 1) p = Some b" "a \<noteq> b"
        by blast
      have eq: "clock w + 3 / 2 * real (Suc k) = clock w + 3 / 2 + 3 / 2 * real k"
        by (simp add: algebra_simps)
      show "\<exists>s1 s2. size_at e (clock ?w1 + 3 / 2 * real k) p = Some s1
        \<and> size_at e (clock ?w1 + 3 / 2 * real k + 1) p = Some s2 \<and> s1 \<noteq> s2"
        unfolding ck using ab unfolding eq by blast
    qed
    from Suc.IH[OF this] have "fst (wait_until_stable n e p ?w1) = None" using quiet by simp
    then show ?thesis using s quiet by (simp add: is_stable_spec print_eq)
  qed
qed

lemma wait_returns:
  "\<forall>k<m. \<exists>s1 s2. size_at e (clock w + 3 / 2 * real k) p = Some s1
        \<and> size_at e (clock w + 3 / 2 * real k + 1) p = Some s2 \<and> s1 \<noteq> s2
   \<Longrightarrow> size_at e (clock w + 3 / 2 * real m) p = Some s
   \<Longrightarrow> size_at e (clock w + 3 / 2 * real m + 1) p = Some s
   \<Longrightarrow> \<not> raises e (PrintError (WAIT_Still_writing p))
   \<Longrightarrow> m < n \<Longrightarrow> fst (wait_until_stable n e p w) = Some (Inr ())"
proof (induction m arbitrary: w n)
  case 0
  then obtain n' where "n = Suc n'" by (cases n) auto
  then show ?case using 0 by (simp add: is_stable_spec)
next
  case (Suc m)
  from Suc.prems(5) obtain n' where n: "n = Suc n'" "m < n'" by (cases n) auto
  from Suc.prems(1)[rule_format, of 0] obtain s1 s2 where
    s: "size_at e (clock w) p = Some s1" "size_at e (clock w + 1) p = Some s2" "s1 \<noteq> s2"
    by auto
  let ?w1 = "sleep (1 / 2) (log_call (Print (WAIT_Still_writing p))
           (w\<lparr>clock := clock w + 1, trace := trace w @ [Getsize p (Some s1), Sleep 1, Getsize p (Some s2)]\<rparr>))"
  have ck: "clock ?w1 = clock w + 3 / 2" by simp
  have eq: "clock w + 3 / 2 * real (Suc k) = clock w + 3 / 2 + 3 / 2 * real k" for k
    by (simp add: algebra_simps)
  have u: "\<forall>k<m. \<exists>s1 s2. size_at e (clock ?w1 + 3 / 2 * real k) p = Some s1
        \<and> size_at e (clock ?w1 + 3 / 2 * real k + 1) p = Some s2 \<and> s1 \<noteq> s2"
  proof (intro allI impI)
    fix k assume "k < m"
    then have "Suc k < Suc m" by simp
    from Suc.prems(1)[rule_format, OF this] show "\<exists>s1 s2. size_at e (clock ?w1 + 3 / 2 * real k) p = Some s1
        \<and> size_at e (clock ?w1 + 3 / 2 * real k + 1) p = Some s2 \<and> s1 \<noteq> s2"
      unfolding ck eq .
  qed
  have a: "size_at e (clock ?w1 + 3 / 2 * real m) p = Some s"
    using Suc.prems(2) unfolding ck eq .
  have b: "size_at e (clock ?w1 + 3 / 2 * real m + 1) p = Some s"
    using Suc.prems(3) unfolding ck eq .
  from Suc.IH[OF u a b Suc.prems(4) n(2)] show ?case
    using s n(1) Suc.prems(4) by (simp add: is_stable_spec print_eq)
qed

lemma split_after_prefix:
  "xs @ ys = a @ c # b \<Longrightarrow> \<forall>x\<in>set xs. \<not> P x \<Longrightarrow> P c \<Longrightarrow> \<exists>a'. a = xs @ a'"
  by (auto simp: append_eq_append_conv2 append_eq_Cons_conv)

lemma on_created_growing_3:
  "on_created 3 gzip4 growing created_a disk =
     (Some (Inr Compressed),
      \<lparr>clock = 4, files = [''/data/a.h5'' \<mapsto> H5File (copied (Some ''gzip'', Some 4) sample)],
       trace = [Getsize ''/data/a.h5'' (Some 10), Sleep 1, Getsize ''/data/a.h5'' (Some 20),
          Print (WAIT_Still_writing ''/data/a.h5''), Sleep (1 / 2),
          Getsize ''/data/a.h5'' (Some 20), Sleep 1, Getsize ''/data/a.h5'' (Some 30),
          Print (WAIT_Still_writing ''/data/a.h5''), Sleep (1 / 2),
          Getsize ''/data/a.h5'' (Some 30), Sleep 1, Getsize ''/data/a.h5'' (Some 30),
          Mkstemp ''/data'' (Some ''/data/tmpabcd1234.h5''),
          Print (INFO_Compressing ''/data/a.h5'' ''/data/tmpabcd1234.h5''),
          OpenRead ''/data/a.h5'', OpenWrite ''/data/tmpabcd1234.h5'',
          Move ''/data/tmpabcd1234.h5'' ''/data/a.h5'', Print (DONE_Replaced ''/data/a.h5'')],
       last_event_time = 0\<rparr>)"
  by (simp add: eval_defs numeral_3_eq_3 gzip4_def growing_def created_a_def disk_def sample_def fun_eq_iff)

lemma candidate_created_a: "candidate created_a"
  by (simp add: candidate_def created_a_def basename_def not_sep_def startswith_def endswith_def)

text \<open>
  Claim C5. In a run of the handler, every call of the recompression or publication comes
  after a probe that returned true: two size reads of the file, one second apart, with
  equal results. While every probe finds two different sizes, the handler has made no such
  call: it is still waiting, unless the line that reports the wait could not be printed,
  which ends the handler with that error.
\<close>

theorem no_compression_before_stable:
  assumes run: "on_created n self e ev w = (r, w')"
  shows "\<exists>t. trace w' = trace w @ t
     \<and> (\<forall>a c b. t = a @ c # b \<and> compress_call c \<longrightarrow>
          (\<exists>a1 s a2. a = a1 @ Getsize (src_path ev) (Some s) # Sleep 1
                # Getsize (src_path ev) (Some s) # a2))
     \<and> (candidate ev \<and> (\<forall>k<n. \<exists>s1 s2. size_at e (clock w + 3 / 2 * real k) (src_path ev) = Some s1
              \<and> size_at e (clock w + 3 / 2 * real k + 1) (src_path ev) = Some s2 \<and> s1 \<noteq> s2)
          \<longrightarrow> (\<forall>c\<in>set t. \<not> compress_call c)
            \<and> r = (if 0 < n \<and> raises e (PrintError (WAIT_Still_writing (src_path ev)))
                   then Some (Inl (PrintError (WAIT_Still_writing (src_path ev)))) else None))"
proof (cases "candidate ev")
  case False
  then have "w' = w" using run on_created_not_candidate[OF False] by simp
  then show ?thesis using False by simp
next
  case True
  let ?p = "src_path ev"
  let ?w1 = "w\<lparr>last_event_time := clock w\<rparr>"
  let ?u = "if 0 < n \<and> raises e (PrintError (WAIT_Still_writing ?p))
             then Some (Inl (PrintError (WAIT_Still_writing ?p))) else None"
  obtain rw w2 where wt: "wait_until_stable n e ?p ?w1 = (rw, w2)"
    by (cases "wait_until_stable n e ?p ?w1")
  obtain t1 where t1: "trace w2 = trace w @ t1" "\<forall>c\<in>set t1. \<not> compress_call c"
    "rw = Some (Inr ()) \<longrightarrow> (\<exists>a s. t1 = a @ [Getsize ?p (Some s), Sleep 1, Getsize ?p (Some s)])"
    using wait_trace[OF wt] by auto
  have unst: "rw = ?u" if "\<forall>k<n. \<exists>s1 s2. size_at e (clock w + 3 / 2 * real k) ?p = Some s1
              \<and> size_at e (clock w + 3 / 2 * real k + 1) ?p = Some s2 \<and> s1 \<noteq> s2"
    using wait_unstable[of n e ?w1 ?p] that wt by simp
  show ?thesis
  proof (cases "rw = Some (Inr ())")
    case False
    then have "w' = w2" and same: "rw = ?u \<longrightarrow> r = ?u"
      using run wt by (auto simp: on_created_candidate[OF True] split: option.splits sum.splits)
    have vac: "\<forall>a c b. t1 = a @ c # b \<and> compress_call c \<longrightarrow>
          (\<exists>a1 s a2. a = a1 @ Getsize ?p (Some s) # Sleep 1 # Getsize ?p (Some s) # a2)"
      using t1(2) by auto
    have "trace w' = trace w @ t1" using t1(1) \<open>w' = w2\<close> by simp
    moreover have "candidate ev \<and> (\<forall>k<n. \<exists>s1 s2. size_at e (clock w + 3 / 2 * real k) ?p = Some s1
              \<and> size_at e (clock w + 3 / 2 * real k + 1) ?p = Some s2 \<and> s1 \<noteq> s2)
          \<longrightarrow> (\<forall>c\<in>set t1. \<not> compress_call c) \<and> r = ?u"
      using unst same t1(2) by blast
    ultimately show ?thesis using vac by blast
  next
    case stable: True
    obtain a0 s where a0: "t1 = a0 @ [Getsize ?p (Some s), Sleep 1, Getsize ?p (Some s)]"
      using t1(3) stable by blast
    obtain c w3 where c: "compress_and_replace self e ?p w2 = (c, w3)"
      by (cases "compress_and_replace self e ?p w2")
    obtain t2 where t2: "trace w3 = trace w2 @ t2"
      using compress_trace_ext[of self e ?p w2] c by auto
    obtain t3 where t3: "trace w' = trace w3 @ t3"
      using run wt c stable
      by (auto simp: on_created_candidate[OF True] print_eq split: sum.splits if_splits)
    have tr: "trace w' = trace w @ (t1 @ t2 @ t3)" using t1(1) t2 t3 by simp
    have "\<exists>a1 s a2. a = a1 @ Getsize ?p (Some s) # Sleep 1 # Getsize ?p (Some s) # a2"
      if sp: "t1 @ t2 @ t3 = a @ x # b" and cc: "compress_call x" for a x b
    proof -
      obtain a' where "a = t1 @ a'"
        using split_after_prefix[OF sp, of compress_call] t1(2) cc by blast
      then have "a = a0 @ Getsize ?p (Some s) # Sleep 1 # Getsize ?p (Some s) # a'"
        using a0 by simp
      then show ?thesis by blast
    qed
    moreover have "\<not> (\<forall>k<n. \<exists>s1 s2. size_at e (clock w + 3 / 2 * real k) ?p = Some s1
              \<and> size_at e (clock w + 3 / 2 * real k + 1) ?p = Some s2 \<and> s1 \<noteq> s2)"
    proof
      assume "\<forall>k<n. \<exists>s1 s2. size_at e (clock w + 3 / 2 * real k) ?p = Some s1
              \<and> size_at e (clock w + 3 / 2 * real k + 1) ?p = Some s2 \<and> s1 \<noteq> s2"
      from unst[OF this] stable show False by (simp split: if_splits)
    qed
    ultimately show ?thesis using tr by blast
  qed
qed

theorem no_compression_before_stable_witness:
  "fst (on_created 3 gzip4 growing created_a disk) = Some (Inr Compressed)
   \<and> (\<exists>t. trace (snd (on_created 3 gzip4 growing created_a disk)) = trace disk @ t
       \<and> (\<forall>a c b. t = a @ c # b \<and> compress_call c \<longrightarrow>
          (\<exists>a1 s a2. a = a1 @ Getsize ''/data/a.h5'' (Some s) # Sleep 1
                # Getsize ''/data/a.h5'' (Some s) # a2)))
   \<and> candidate created_a
   \<and> size_at growing (clock disk) ''/data/a.h5'' = Some 10
   \<and> size_at growing (clock disk + 1) ''/data/a.h5'' = Some 20
   \<and> size_at growing (clock disk + 3 / 2) ''/data/a.h5'' = Some 20
   \<and> size_at growing (clock disk + 3 / 2 + 1) ''/data/a.h5'' = Some 30
   \<and> fst (on_created 2 gzip4 growing created_a disk) = None"
proof -
  have r3: "on_created 3 gzip4 growing created_a disk
     = (fst (on_created 3 gzip4 growing created_a disk), snd (on_created 3 gzip4 growing created_a disk))"
    by simp
  have r2: "on_created 2 gzip4 growing created_a disk
     = (fst (on_created 2 gzip4 growing created_a disk), snd (on_created 2 gzip4 growing created_a disk))"
    by simp
  have c: "candidate created_a" by (rule candidate_created_a)
  have p: "src_path created_a = ''/data/a.h5''" by (simp add: created_a_def)
  have q: "\<not> raises growing (PrintError (WAIT_Still_writing (src_path created_a)))"
    by (simp add: growing_def)
  have s: "size_at growing (clock disk) ''/data/a.h5'' = Some 10"
    "size_at growing (clock disk + 1) ''/data/a.h5'' = Some 20"
    "size_at growing (clock disk + 3 / 2) ''/data/a.h5'' = Some 20"
    "size_at growing (clock disk + 3 / 2 + 1) ''/data/a.h5'' = Some 30"
    by (simp_all add: growing_def disk_def)
  have u: "\<forall>k<2. \<exists>s1 s2. size_at growing (clock disk + 3 / 2 * real k) (src_path created_a) = Some s1
       \<and> size_at growing (clock disk + 3 / 2 * real k + 1) (src_path created_a) = Some s2 \<and> s1 \<noteq> s2"
  proof (intro allI impI)
    fix k :: nat assume "k < 2"
    then have "k = 0 \<or> k = 1" by auto
    then show "\<exists>s1 s2. size_at growing (clock disk + 3 / 2 * real k) (src_path created_a) = Some s1
       \<and> size_at growing (clock disk + 3 / 2 * real k + 1) (src_path created_a) = Some s2 \<and> s1 \<noteq> s2"
      using s p by auto
  qed
  note t2 = no_compression_before_stable [OF r2]
  note t3 = no_compression_before_stable [OF r3]
  from t2 obtain t where
    h: "candidate created_a \<and> (\<forall>k<2. \<exists>s1 s2. size_at growing (clock disk + 3 / 2 * real k) (src_path created_a) = Some s1
              \<and> size_at growing (clock disk + 3 / 2 * real k + 1) (src_path created_a) = Some s2 \<and> s1 \<noteq> s2)
          \<longrightarrow> (\<forall>c\<in>set t. \<not> compress_call c)
            \<and> fst (on_created 2 gzip4 growing created_a disk)
               = (if 0 < (2::nat) \<and> raises growing (PrintError (WAIT_Still_writing (src_path created_a)))
                   then Some (Inl (PrintError (WAIT_Still_writing (src_path created_a)))) else None)"
    by (elim exE conjE) (rule that)
  from h [rule_format, OF conjI [OF c u]]
  have "fst (on_created 2 gzip4 growing created_a disk)
               = (if 0 < (2::nat) \<and> raises growing (PrintError (WAIT_Still_writing (src_path created_a)))
                   then Some (Inl (PrintError (WAIT_Still_writing (src_path created_a)))) else None)"
    by (rule conjunct2)
  then have w2: "fst (on_created 2 gzip4 growing created_a disk) = None" using q by simp
  from t3 obtain t' where
    a: "trace (snd (on_created 3 gzip4 growing created_a disk)) = trace disk @ t'"
    and b: "\<forall>a c b. t' = a @ c # b \<and> compress_call c \<longrightarrow>
          (\<exists>a1 s a2. a = a1 @ Getsize (src_path created_a) (Some s) # Sleep 1
                # Getsize (src_path created_a) (Some s) # a2)"
    by (elim exE conjE) (rule that)
  have w3: "\<exists>t. trace (snd (on_created 3 gzip4 growing created_a disk)) = trace disk @ t
       \<and> (\<forall>a c b. t = a @ c # b \<and> compress_call c \<longrightarrow>
          (\<exists>a1 s a2. a = a1 @ Getsize ''/data/a.h5'' (Some s) # Sleep 1
                # Getsize ''/data/a.h5'' (Some s) # a2))"
    using a b unfolding p by (intro exI conjI)
  have f3: "fst (on_created 3 gzip4 growing created_a disk) = Some (Inr Compressed)"
    by (simp add: on_created_growing_3)
  show ?thesis
    by (rule conjI [OF f3 conjI [OF w3 conjI [OF c conjI [OF s(1) conjI [OF s(2) conjI [OF s(3) conjI [OF s(4) w2]]]]]]])
qed

text \<open>
  Claim C2 says that a size read failing during the probe is recovered at the scope of
  the job. The probe loop of \<open>on_created\<close> runs before the \<^verbatim>\<open>try\<close> block, so the error
  leaves the handler: for a file that disappears between the two size reads, the call ends
  with the exception, nothing is printed and no recompression is attempted.
\<close>

theorem probe_error_escapes_handler:
  "on_created 1 gzip4 vanishing created_a disk =
     (Some (Inl (GetsizeError ''/data/a.h5'')),
      \<lparr>clock = 1, files = [''/data/a.h5'' \<mapsto> H5File sample],
       trace = [Getsize ''/data/a.h5'' (Some 100), Sleep 1, Getsize ''/data/a.h5'' None],
       last_event_time = 0\<rparr>)"
  by (simp add: eval_defs gzip4_def vanishing_def created_a_def disk_def sample_def fun_eq_iff)

theorem probe_error_escapes_handler_witness:
  "fst (on_created 1 gzip4 vanishing created_a disk) = Some (Inl (GetsizeError ''/data/a.h5''))
   \<and> trace (snd (on_created 1 gzip4 vanishing created_a disk))
       = [Getsize ''/data/a.h5'' (Some 100), Sleep 1, Getsize ''/data/a.h5'' None]
   \<and> files (snd (on_created 1 gzip4 vanishing created_a disk)) = files disk"
  using probe_error_escapes_handler by (simp add: disk_def)

section \<open>The filter of the creation handler\<close>

lemma settles_step:
  assumes "settles e p c (Suc m) s"
  shows "\<exists>s1 s2. size_at e c p = Some s1 \<and> size_at e (c + 1) p = Some s2 \<and> s1 \<noteq> s2"
    and "\<not> raises e (PrintError (WAIT_Still_writing p))"
    and "settles e p (c + 3 / 2) m s"
proof -
  have eq: "c + 3 / 2 * real (Suc k) = c + 3 / 2 + 3 / 2 * real k" for k
    by (simp add: algebra_simps)
  have u: "\<forall>k<Suc m. \<exists>s1 s2. size_at e (c + 3 / 2 * real k) p = Some s1
           \<and> size_at e (c + 3 / 2 * real k + 1) p = Some s2 \<and> s1 \<noteq> s2"
    and a: "size_at e (c + 3 / 2 * real (Suc m)) p = Some s"
    and b: "size_at e (c + 3 / 2 * real (Suc m) + 1) p = Some s"
    and q: "\<not> raises e (PrintError (WAIT_Still_writing p))"
    using assms by (simp_all add: settles_def)
  from u[rule_format, of 0]
  show "\<exists>s1 s2. size_at e c p = Some s1 \<and> size_at e (c + 1) p = Some s2 \<and> s1 \<noteq> s2" by simp
  show "\<not> raises e (PrintError (WAIT_Still_writing p))" by (rule q)
  have u': "\<forall>k<m. \<exists>s1 s2. size_at e (c + 3 / 2 + 3 / 2 * real k) p = Some s1
           \<and> size_at e (c + 3 / 2 + 3 / 2 * real k + 1) p = Some s2 \<and> s1 \<noteq> s2"
  proof (intro allI impI)
    fix k assume "k < m"
    then have "Suc k < Suc m" by simp
    from u[rule_format, OF this]
    show "\<exists>s1 s2. size_at e (c + 3 / 2 + 3 / 2 * real k) p = Some s1
           \<and> size_at e (c + 3 / 2 + 3 / 2 * real k + 1) p = Some s2 \<and> s1 \<noteq> s2"
      unfolding eq .
  qed
  show "settles e p (c + 3 / 2) m s"
    unfolding settles_def using u' a b q unfolding eq by simp
qed

lemma wait_exact:
  "settles e p (clock w) m s \<Longrightarrow> m < n \<Longrightarrow>
     wait_until_stable n e p w =
       (Some (Inr ()),
        w\<lparr>clock := clock w + 3 / 2 * real m + 1,
          trace := trace w @ probes e p (clock w) m
             @ [Getsize p (Some s), Sleep 1, Getsize p (Some s)]\<rparr>)"
proof (induction m arbitrary: w n)
  case 0
  then obtain n' where "n = Suc n'" by (cases n) auto
  then show ?case using 0 by (simp add: is_stable_spec settles_def)
next
  case (Suc m)
  from Suc.prems(2) obtain n' where n: "n = Suc n'" "m < n'" by (cases n) auto
  from settles_step[OF Suc.prems(1)] obtain s1 s2 where
    s: "size_at e (clock w) p = Some s1" "size_at e (clock w + 1) p = Some s2" "s1 \<noteq> s2"
    and q: "\<not> raises e (PrintError (WAIT_Still_writing p))"
    and rest: "settles e p (clock w + 3 / 2) m s"
    by blast
  let ?w1 = "sleep (1 / 2) (log_call (Print (WAIT_Still_writing p))
           (w\<lparr>clock := clock w + 1, trace := trace w @ [Getsize p (Some s1), Sleep 1, Getsize p (Some s2)]\<rparr>))"
  have ck: "clock ?w1 = clock w + 3 / 2" by simp
  have rest': "settles e p (clock ?w1) m s" unfolding ck by (rule rest)
  have step: "wait_until_stable n e p w = wait_until_stable n' e p ?w1"
    using s q n(1) by (simp add: is_stable_spec print_eq)
  have eq: "clock w + 3 / 2 * real (Suc m) = clock w + 3 / 2 + 3 / 2 * real m"
    by (simp add: algebra_simps)
  have fin: "?w1\<lparr>clock := clock ?w1 + 3 / 2 * real m + 1,
          trace := trace ?w1 @ probes e p (clock ?w1) m
             @ [Getsize p (Some s), Sleep 1, Getsize p (Some s)]\<rparr>
      = w\<lparr>clock := clock w + 3 / 2 * real (Suc m) + 1,
          trace := trace w @ probes e p (clock w) (Suc m)
             @ [Getsize p (Some s), Sleep 1, Getsize p (Some s)]\<rparr>"
  proof -
    have c: "clock ?w1 + 3 / 2 * real m + 1 = clock w + 3 / 2 * real (Suc m) + 1"
      unfolding ck eq by (rule refl)
    have t: "trace ?w1 @ probes e p (clock ?w1) m @ [Getsize p (Some s), Sleep 1, Getsize p (Some s)]
        = trace w @ probes e p (clock w) (Suc m) @ [Getsize p (Some s), Sleep 1, Getsize p (Some s)]"
      unfolding ck using s by simp
    show ?thesis unfolding c t by (simp add: sleep_def log_call_def)
  qed
  show ?case unfolding step Suc.IH[OF rest' n(2)] fin ..
qed

lemma candidate_iff:
  "candidate ev = (\<not> is_directory ev \<and> endswith (basename (src_path ev)) ''.h5''
        \<and> \<not> startswith (basename (src_path ev)) ''tmp'')"
  by (auto simp: candidate_def)

lemma on_created_later:
  "on_created 3 gzip4 growing_later created_a disk_later =
     (Some (Inr Compressed),
      \<lparr>clock = 46, files = [''/data/a.h5'' \<mapsto> H5File (copied (Some ''gzip'', Some 4) sample)],
       trace = [Print (WAIT_Still_writing ''/data/old.h5''),
          Getsize ''/data/a.h5'' (Some 10), Sleep 1, Getsize ''/data/a.h5'' (Some 20),
          Print (WAIT_Still_writing ''/data/a.h5''), Sleep (1 / 2),
          Getsize ''/data/a.h5'' (Some 20), Sleep 1, Getsize ''/data/a.h5'' (Some 30),
          Print (WAIT_Still_writing ''/data/a.h5''), Sleep (1 / 2),
          Getsize ''/data/a.h5'' (Some 30), Sleep 1, Getsize ''/data/a.h5'' (Some 30),
          Mkstemp ''/data'' (Some ''/data/tmpabcd1234.h5''),
          Print (INFO_Compressing ''/data/a.h5'' ''/data/tmpabcd1234.h5''),
          OpenRead ''/data/a.h5'', OpenWrite ''/data/tmpabcd1234.h5'',
          Move ''/data/tmpabcd1234.h5'' ''/data/a.h5'', Print (DONE_Replaced ''/data/a.h5'')],
       last_event_time = 42\<rparr>)"
  by (simp add: eval_defs numeral_3_eq_3 gzip4_def growing_later_def created_a_def disk_later_def
      sample_def fun_eq_iff)

text \<open>
  Claim C3. A creation event is accepted exactly when it is not a directory event, the
  base name of its path ends with \<open>.h5\<close> and the base name does not start with \<open>tmp\<close>.
  Any other event returns at once and leaves the world as it was. An accepted event sets
  the shared time stamp to the current time and starts the job with the size read of the
  probe. When the file settles in round \<open>m\<close> of the wait, the run is: the \<open>m\<close> rounds that
  wait, the round that finds the size unchanged, and then the recompression of the file,
  which first asks for a temporary file in the file's directory; the handler ends with the
  recompression done or failed. Where nothing fails and the file is a container, the
  recompression is done and the file is replaced by its copy.
\<close>

theorem on_created_filter:
  assumes run: "on_created (Suc n) self e ev w = (r, w')"
  shows "(if \<not> is_directory ev \<and> endswith (basename (src_path ev)) ''.h5''
        \<and> \<not> startswith (basename (src_path ev)) ''tmp''
    then r \<noteq> Some (Inr Ignored)
       \<and> last_event_time w' = clock w
       \<and> (\<exists>t. trace w' = trace w @ Getsize (src_path ev) (size_at e (clock w) (src_path ev)) # t)
       \<and> (\<forall>m s. m \<le> n \<and> settles e (src_path ev) (clock w) m s \<longrightarrow>
            (\<exists>made t. trace w' = trace w @ probes e (src_path ev) (clock w) m
                 @ Getsize (src_path ev) (Some s) # Sleep 1 # Getsize (src_path ev) (Some s)
                 # Mkstemp (fst (path_split (src_path ev))) made # t)
          \<and> (r = Some (Inr Compressed)
              \<or> (\<exists>x. r = Some (Inr (Failed x))
                   \<or> r = Some (Inl (PrintError (ERROR_Compression_failed (src_path ev) x)))))
          \<and> (\<forall>src tmp. (\<forall>x. \<not> raises e x) \<and> files w (src_path ev) = Some (H5File src)
                \<and> wf_members src
                \<and> mkstemp_pick (files w) ''.h5'' (fst (path_split (src_path ev))) (tmp_names e) = Some tmp
              \<longrightarrow> r = Some (Inr Compressed)
                \<and> files w' = ((files w)(src_path ev \<mapsto> H5File (copied (kwargs_of self) src)))(tmp := None)))
    else r = Some (Inr Ignored) \<and> w' = w)"
proof (cases "candidate ev")
  case False
  then show ?thesis using run on_created_not_candidate[OF False, of "Suc n" self e w]
    by (simp add: candidate_iff)
next
  case True
  let ?p = "src_path ev"
  let ?w1 = "w\<lparr>last_event_time := clock w\<rparr>"
  obtain rw w2 where wt: "wait_until_stable (Suc n) e ?p ?w1 = (rw, w2)"
    by (cases "wait_until_stable (Suc n) e ?p ?w1")
  obtain c w3 where c: "compress_and_replace self e ?p w2 = (c, w3)"
    by (cases "compress_and_replace self e ?p w2")
  have oc: "(r, w') =
     (case rw of None \<Rightarrow> (None, w2) | Some (Inl x) \<Rightarrow> (Some (Inl x), w2)
      | Some (Inr u) \<Rightarrow> (case c of
            Inl x \<Rightarrow> (if raises e (PrintError (ERROR_Compression_failed ?p x))
                then Some (Inl (PrintError (ERROR_Compression_failed ?p x))) else Some (Inr (Failed x)),
                log_call (Print (ERROR_Compression_failed ?p x)) w3)
          | Inr u' \<Rightarrow> (Some (Inr Compressed), w3)))"
    using run unfolding on_created_candidate[OF True] wt
    by (auto simp: c print_eq split: option.splits sum.splits)
  have accepted: "r \<noteq> Some (Inr Ignored)"
    using oc by (auto split: option.splits sum.splits if_splits)
  have stamp: "last_event_time w' = clock w"
    using on_created_stamp[of "Suc n" self e ev w] run True by (simp add: mark_event_def)
  obtain t1 where t1: "trace w2 = trace w @ Getsize ?p (size_at e (clock w) ?p) # t1"
    using wait_first_call[of n e ?p ?w1] wt by auto
  obtain t2 where t2: "trace w3 = trace w2 @ t2"
    using compress_trace_ext[of self e ?p w2] c by auto
  have first: "\<exists>t. trace w' = trace w @ Getsize ?p (size_at e (clock w) ?p) # t"
    using oc t1 t2 by (auto split: option.splits sum.splits if_splits)
  have job: "(\<exists>made t. trace w' = trace w @ probes e ?p (clock w) m
                 @ Getsize ?p (Some s) # Sleep 1 # Getsize ?p (Some s)
                 # Mkstemp (fst (path_split ?p)) made # t)
          \<and> (r = Some (Inr Compressed)
              \<or> (\<exists>x. r = Some (Inr (Failed x))
                   \<or> r = Some (Inl (PrintError (ERROR_Compression_failed ?p x)))))
          \<and> (\<forall>src tmp. (\<forall>x. \<not> raises e x) \<and> files w ?p = Some (H5File src)
                \<and> wf_members src
                \<and> mkstemp_pick (files w) ''.h5'' (fst (path_split ?p)) (tmp_names e) = Some tmp
              \<longrightarrow> r = Some (Inr Compressed)
                \<and> files w' = ((files w)(?p \<mapsto> H5File (copied (kwargs_of self) src)))(tmp := None))"
    if m: "m \<le> n" and st: "settles e ?p (clock w) m s" for m s
  proof -
    have st': "settles e ?p (clock ?w1) m s" using st by simp
    have lt: "m < Suc n" using m by simp
    have rw: "rw = Some (Inr ())"
      and tr2: "trace w2 = trace w @ probes e ?p (clock w) m
             @ [Getsize ?p (Some s), Sleep 1, Getsize ?p (Some s)]"
      and f2: "files w2 = files w"
      using wt unfolding wait_exact[OF st' lt] by auto
    obtain made t where tr3: "trace w3 = trace w2 @ Mkstemp (fst (path_split ?p)) made # t"
      using compress_trace_shape[OF c] by auto
    have res: "(r, w') = (case c of
            Inl x \<Rightarrow> (if raises e (PrintError (ERROR_Compression_failed ?p x))
                then Some (Inl (PrintError (ERROR_Compression_failed ?p x))) else Some (Inr (Failed x)),
                log_call (Print (ERROR_Compression_failed ?p x)) w3)
          | Inr u' \<Rightarrow> (Some (Inr Compressed), w3))"
      using oc rw by simp
    have a: "\<exists>made t. trace w' = trace w @ probes e ?p (clock w) m
                 @ Getsize ?p (Some s) # Sleep 1 # Getsize ?p (Some s)
                 # Mkstemp (fst (path_split ?p)) made # t"
      using res tr2 tr3 by (cases c) auto
    have b: "r = Some (Inr Compressed)
              \<or> (\<exists>x. r = Some (Inr (Failed x))
                   \<or> r = Some (Inl (PrintError (ERROR_Compression_failed ?p x))))"
      using res by (cases c) (auto split: if_splits)
    have d: "r = Some (Inr Compressed)
                \<and> files w' = ((files w)(?p \<mapsto> H5File (copied (kwargs_of self) src)))(tmp := None)"
      if h: "(\<forall>x. \<not> raises e x) \<and> files w ?p = Some (H5File src) \<and> wf_members src
                \<and> mkstemp_pick (files w) ''.h5'' (fst (path_split ?p)) (tmp_names e) = Some tmp"
      for src tmp
    proof -
      have src: "files w2 ?p = Some (H5File src)" using h f2 by simp
      have pick: "mkstemp_pick (files w2) ''.h5'' (fst (path_split ?p)) (tmp_names e) = Some tmp"
        using h f2 by simp
      have quiet: "\<forall>x. \<not> raises e x" and wf: "wf_members src" using h by simp_all
      from compress_and_replace_succeeds[OF src wf quiet pick, of self] c
      have "c = Inr ()"
        and "files w3 = ((files w2)(?p \<mapsto> H5File (copied (kwargs_of self) src)))(tmp := None)"
        by simp_all
      then show ?thesis using res f2 by simp
    qed
    show ?thesis using a b d by blast
  qed
  have cond: "\<not> is_directory ev \<and> endswith (basename (src_path ev)) ''.h5''
        \<and> \<not> startswith (basename (src_path ev)) ''tmp''"
    using True unfolding candidate_iff .
  have all: "\<forall>m s. m \<le> n \<and> settles e ?p (clock w) m s \<longrightarrow>
          (\<exists>made t. trace w' = trace w @ probes e ?p (clock w) m
                 @ Getsize ?p (Some s) # Sleep 1 # Getsize ?p (Some s)
                 # Mkstemp (fst (path_split ?p)) made # t)
          \<and> (r = Some (Inr Compressed)
              \<or> (\<exists>x. r = Some (Inr (Failed x))
                   \<or> r = Some (Inl (PrintError (ERROR_Compression_failed ?p x)))))
          \<and> (\<forall>src tmp. (\<forall>x. \<not> raises e x) \<and> files w ?p = Some (H5File src)
                \<and> wf_members src
                \<and> mkstemp_pick (files w) ''.h5'' (fst (path_split ?p)) (tmp_names e) = Some tmp
              \<longrightarrow> r = Some (Inr Compressed)
                \<and> files w' = ((files w)(?p \<mapsto> H5File (copied (kwargs_of self) src)))(tmp := None))"
  proof (intro allI impI)
    fix m s assume h: "m \<le> n \<and> settles e ?p (clock w) m s"
    from h have m: "m \<le> n" by (rule conjunct1)
    from h have st: "settles e ?p (clock w) m s" by (rule conjunct2)
    show "(\<exists>made t. trace w' = trace w @ probes e ?p (clock w) m
                 @ Getsize ?p (Some s) # Sleep 1 # Getsize ?p (Some s)
                 # Mkstemp (fst (path_split ?p)) made # t)
          \<and> (r = Some (Inr Compressed)
              \<or> (\<exists>x. r = Some (Inr (Failed x))
                   \<or> r = Some (Inl (PrintError (ERROR_Compression_failed ?p x)))))
          \<and> (\<forall>src tmp. (\<forall>x. \<not> raises e x) \<and> files w ?p = Some (H5File src)
                \<and> wf_members src
                \<and> mkstemp_pick (files w) ''.h5'' (fst (path_split ?p)) (tmp_names e) = Some tmp
              \<longrightarrow> r = Some (Inr Compressed)
                \<and> files w' = ((files w)(?p \<mapsto> H5File (copied (kwargs_of self) src)))(tmp := None))"
      by (rule job [OF m st])
  qed
  show ?thesis unfolding if_P[OF cond]
    by (rule conjI [OF accepted conjI [OF stamp conjI [OF first all]]])
qed

theorem on_created_filter_witness:
  "fst (on_created 3 gzip4 growing_later created_a disk_later) = Some (Inr Compressed)
   \<and> last_event_time (snd (on_created 3 gzip4 growing_later created_a disk_later)) = clock disk_later
   \<and> clock disk_later = 42 \<and> last_event_time disk_later = 30
   \<and> src_path created_a = ''/data/a.h5''
   \<and> settles growing_later (src_path created_a) (clock disk_later) 2 30
   \<and> (\<exists>made t. trace (snd (on_created 3 gzip4 growing_later created_a disk_later))
         = trace disk_later @ probes growing_later (src_path created_a) (clock disk_later) 2
             @ Getsize (src_path created_a) (Some 30) # Sleep 1 # Getsize (src_path created_a) (Some 30)
             # Mkstemp (fst (path_split (src_path created_a))) made # t)
   \<and> files (snd (on_created 3 gzip4 growing_later created_a disk_later))
       = ((files disk_later)(src_path created_a \<mapsto> H5File (copied (kwargs_of gzip4) sample)))
            (''/data/tmpabcd1234.h5'' := None)
   \<and> fst (on_created (Suc 0) gzip4 calm \<lparr>is_directory = False, src_path = ''/data/tmpa.h5''\<rparr> disk_later)
       = Some (Inr Ignored)
   \<and> snd (on_created (Suc 0) gzip4 calm \<lparr>is_directory = False, src_path = ''/data/tmpa.h5''\<rparr> disk_later)
       = disk_later
   \<and> fst (on_created (Suc 0) gzip4 calm \<lparr>is_directory = True, src_path = ''/data/a.h5''\<rparr> disk_later)
       = Some (Inr Ignored)
   \<and> snd (on_created (Suc 0) gzip4 calm \<lparr>is_directory = True, src_path = ''/data/a.h5''\<rparr> disk_later)
       = disk_later"
proof -
  let ?run = "on_created 3 gzip4 growing_later created_a disk_later"
  let ?tmp = "\<lparr>is_directory = False, src_path = ''/data/tmpa.h5''\<rparr>"
  let ?dir = "\<lparr>is_directory = True, src_path = ''/data/a.h5''\<rparr>"
  have n3: "Suc 2 = 3" by simp
  have r: "on_created (Suc 2) gzip4 growing_later created_a disk_later = (fst ?run, snd ?run)"
    unfolding n3 by simp
  have cond: "\<not> is_directory created_a \<and> endswith (basename (src_path created_a)) ''.h5''
        \<and> \<not> startswith (basename (src_path created_a)) ''tmp''"
    using candidate_created_a unfolding candidate_iff .
  have ck: "clock disk_later = 42" by (simp add: disk_later_def)
  have st0: "last_event_time disk_later = 30" by (simp add: disk_later_def)
  have p: "src_path created_a = ''/data/a.h5''" by (simp add: created_a_def)
  have le: "(2::nat) \<le> 2" by simp
  have st: "settles growing_later (src_path created_a) (clock disk_later) 2 30"
    unfolding p ck by (auto simp: settles_def growing_later_def less_2_cases_iff)
  have quiet: "\<forall>x. \<not> raises growing_later x" by (simp add: growing_later_def)
  have src: "files disk_later (src_path created_a) = Some (H5File sample)"
    unfolding p by (simp add: disk_later_def)
  have wf: "wf_members sample" by (simp add: sample_def)
  have pick: "mkstemp_pick (files disk_later) ''.h5'' (fst (path_split (src_path created_a)))
       (tmp_names growing_later) = Some ''/data/tmpabcd1234.h5''"
    unfolding p by (simp add: eval_defs disk_later_def growing_later_def)
  note t = on_created_filter [OF r, unfolded if_P [OF cond]]
  note stamp = t [THEN conjunct2, THEN conjunct1]
  note job = t [THEN conjunct2, THEN conjunct2, THEN conjunct2, rule_format, OF conjI [OF le st]]
  note tr = job [THEN conjunct1]
  note fin = job [THEN conjunct2, THEN conjunct2, rule_format,
      OF conjI [OF quiet conjI [OF src conjI [OF wf pick]]]]
  note res = fin [THEN conjunct1]
  note fl = fin [THEN conjunct2]
  have rt: "on_created (Suc 0) gzip4 calm ?tmp disk_later
      = (fst (on_created (Suc 0) gzip4 calm ?tmp disk_later),
         snd (on_created (Suc 0) gzip4 calm ?tmp disk_later))"
    by simp
  have ct: "\<not> (\<not> is_directory ?tmp \<and> endswith (basename (src_path ?tmp)) ''.h5''
        \<and> \<not> startswith (basename (src_path ?tmp)) ''tmp'')"
    by (simp add: basename_def not_sep_def startswith_def endswith_def)
  note it = on_created_filter [OF rt, unfolded if_not_P [OF ct]]
  have rd: "on_created (Suc 0) gzip4 calm ?dir disk_later
      = (fst (on_created (Suc 0) gzip4 calm ?dir disk_later),
         snd (on_created (Suc 0) gzip4 calm ?dir disk_later))"
    by simp
  have cd: "\<not> (\<not> is_directory ?dir \<and> endswith (basename (src_path ?dir)) ''.h5''
        \<and> \<not> startswith (basename (src_path ?dir)) ''tmp'')"
    by simp
  note idr = on_created_filter [OF rd, unfolded if_not_P [OF cd]]
  show ?thesis
    by (rule conjI [OF res conjI [OF stamp conjI [OF ck conjI [OF st0 conjI [OF p conjI [OF st
         conjI [OF tr conjI [OF fl conjI [OF it [THEN conjunct1] conjI [OF it [THEN conjunct2]
         conjI [OF idr [THEN conjunct1] idr [THEN conjunct2]]]]]]]]]]]])
qed

section \<open>Errors of one job\<close>

text \<open>
  Claim C7 says that every error raised while one file is recompressed is caught, logged
  with the path, and that the handler returns or the one-shot loop goes on. The line that
  logs the error is printed inside the handler of the exception, and it names the path:
  for a file whose name the output stream cannot encode, printing the first line of the
  recompression raises, the error is caught, and printing the line that logs it raises
  again. That second error leaves \<open>on_created\<close>; in one-shot mode it leaves the loop, and
  the second container of the directory is never recompressed.
\<close>

theorem error_print_escapes:
  "on_created 1 gzip4 strict_output created_odd disk_odd =
     (Some (Inl (PrintError (ERROR_Compression_failed odd_path
         (PrintError (INFO_Compressing odd_path ''/data/tmpabcd1234.h5''))))),
      disk_odd\<lparr>clock := 1,
        files := (files disk_odd)(''/data/tmpabcd1234.h5'' \<mapsto> NotH5),
        trace := [Getsize odd_path (Some 100), Sleep 1, Getsize odd_path (Some 100),
          Mkstemp ''/data'' (Some ''/data/tmpabcd1234.h5''),
          Print (INFO_Compressing odd_path ''/data/tmpabcd1234.h5''),
          Print (ERROR_Compression_failed odd_path
             (PrintError (INFO_Compressing odd_path ''/data/tmpabcd1234.h5'')))]\<rparr>)
   \<and> once_walk gzip4 strict_output walk_odd disk_odd =
     (Inl (PrintError (ERROR_Compression_failed odd_path
         (PrintError (INFO_Compressing odd_path ''/data/tmpabcd1234.h5'')))),
      disk_odd\<lparr>files := (files disk_odd)(''/data/tmpabcd1234.h5'' \<mapsto> NotH5),
        trace := [Mkstemp ''/data'' (Some ''/data/tmpabcd1234.h5''),
          Print (INFO_Compressing odd_path ''/data/tmpabcd1234.h5''),
          Print (ERROR_Compression_failed odd_path
             (PrintError (INFO_Compressing odd_path ''/data/tmpabcd1234.h5'')))]\<rparr>)"
proof -
  have a: "on_created 1 gzip4 strict_output created_odd disk_odd =
     (Some (Inl (PrintError (ERROR_Compression_failed odd_path
         (PrintError (INFO_Compressing odd_path ''/data/tmpabcd1234.h5''))))),
      disk_odd\<lparr>clock := 1,
        files := (files disk_odd)(''/data/tmpabcd1234.h5'' \<mapsto> NotH5),
        trace := [Getsize odd_path (Some 100), Sleep 1, Getsize odd_path (Some 100),
          Mkstemp ''/data'' (Some ''/data/tmpabcd1234.h5''),
          Print (INFO_Compressing odd_path ''/data/tmpabcd1234.h5''),
          Print (ERROR_Compression_failed odd_path
             (PrintError (INFO_Compressing odd_path ''/data/tmpabcd1234.h5'')))]\<rparr>)"
    by (simp add: eval_defs gzip4_def strict_output_def created_odd_def disk_odd_def odd_path_def
        fun_eq_iff)
  have b: "once_walk gzip4 strict_output walk_odd disk_odd =
     (Inl (PrintError (ERROR_Compression_failed odd_path
         (PrintError (INFO_Compressing odd_path ''/data/tmpabcd1234.h5'')))),
      disk_odd\<lparr>files := (files disk_odd)(''/data/tmpabcd1234.h5'' \<mapsto> NotH5),
        trace := [Mkstemp ''/data'' (Some ''/data/tmpabcd1234.h5''),
          Print (INFO_Compressing odd_path ''/data/tmpabcd1234.h5''),
          Print (ERROR_Compression_failed odd_path
             (PrintError (INFO_Compressing odd_path ''/data/tmpabcd1234.h5'')))]\<rparr>)"
    by (simp add: eval_defs gzip4_def strict_output_def walk_odd_def disk_odd_def odd_path_def
        fun_eq_iff)
  show ?thesis by (rule conjI [OF a b])
qed

theorem error_print_escapes_witness:
  "fst (on_created 1 gzip4 strict_output created_odd disk_odd)
     = Some (Inl (PrintError (ERROR_Compression_failed odd_path
         (PrintError (INFO_Compressing odd_path ''/data/tmpabcd1234.h5'')))))
   \<and> fst (once_walk gzip4 strict_output walk_odd disk_odd)
     = Inl (PrintError (ERROR_Compression_failed odd_path
         (PrintError (INFO_Compressing odd_path ''/data/tmpabcd1234.h5''))))
   \<and> matching_files walk_odd = [odd_path, ''/data/b.h5'']
   \<and> files (snd (once_walk gzip4 strict_output walk_odd disk_odd)) ''/data/b.h5''
       = Some (H5File [(''z'', Dataset [5] (None, None) [])])
   \<and> mkstemp_dirs (trace (snd (once_walk gzip4 strict_output walk_odd disk_odd))) = [''/data'']"
proof -
  note a = error_print_escapes [THEN conjunct1]
  note b = error_print_escapes [THEN conjunct2]
  have r1: "fst (on_created 1 gzip4 strict_output created_odd disk_odd)
     = Some (Inl (PrintError (ERROR_Compression_failed odd_path
         (PrintError (INFO_Compressing odd_path ''/data/tmpabcd1234.h5'')))))"
    unfolding a by simp
  have r2: "fst (once_walk gzip4 strict_output walk_odd disk_odd)
     = Inl (PrintError (ERROR_Compression_failed odd_path
         (PrintError (INFO_Compressing odd_path ''/data/tmpabcd1234.h5''))))"
    unfolding b by simp
  have m: "matching_files walk_odd = [odd_path, ''/data/b.h5'']"
    by (simp add: matching_files_def walk_odd_def matching_def startswith_def endswith_def
        path_join_def odd_path_def)
  have f: "files (snd (once_walk gzip4 strict_output walk_odd disk_odd)) ''/data/b.h5''
       = Some (H5File [(''z'', Dataset [5] (None, None) [])])"
    unfolding b by (simp add: disk_odd_def)
  have d: "mkstemp_dirs (trace (snd (once_walk gzip4 strict_output walk_odd disk_odd))) = [''/data'']"
    unfolding b by simp
  show ?thesis by (rule conjI [OF r1 conjI [OF r2 conjI [OF m conjI [OF f d]]]])
qed

section \<open>One-shot mode\<close>










section \<open>Idle shutdown\<close>

lemma watch_loop_idle_D:
  "watch_loop T run s0 = Some (Idle_shutdown idle) \<Longrightarrow>
     \<exists>pre now post. run = pre @ Wake now # post \<and> KeyboardInterrupt \<notin> set pre
        \<and> idle = now - stamp_after pre s0 \<and> idle > T
        \<and> (\<forall>a t b. pre = a @ Wake t # b \<longrightarrow> \<not> (t - stamp_after a s0 > T))"
proof (induction T run s0 rule: watch_loop.induct)
  case (1 T s0)
  then show ?case by simp
next
  case (2 T now rest s0)
  show ?case
  proof (cases "now - s0 > T")
    case True
    then have "idle = now - s0" using "2.prems" by simp
    then have "Wake now # rest = [] @ Wake now # rest \<and> KeyboardInterrupt \<notin> set []
        \<and> idle = now - stamp_after [] s0 \<and> idle > T
        \<and> (\<forall>a t b. [] = a @ Wake t # b \<longrightarrow> \<not> (t - stamp_after a s0 > T))"
      using True by simp
    then show ?thesis by blast
  next
    case False
    then have "watch_loop T rest s0 = Some (Idle_shutdown idle)" using "2.prems" by simp
    from "2.IH"[OF refl _ this] False obtain pre n post where
      p: "rest = pre @ Wake n # post" "KeyboardInterrupt \<notin> set pre"
        "idle = n - stamp_after pre s0" "idle > T"
        "\<forall>a t b. pre = a @ Wake t # b \<longrightarrow> \<not> (t - stamp_after a s0 > T)"
      by auto
    have "\<forall>a t b. Wake now # pre = a @ Wake t # b \<longrightarrow> \<not> (t - stamp_after a s0 > T)"
    proof (intro allI impI)
      fix a t b assume eq: "Wake now # pre = a @ Wake t # b"
      show "\<not> (t - stamp_after a s0 > T)"
      proof (cases a)
        case Nil then show ?thesis using eq False by simp
      next
        case (Cons x a')
        then have "pre = a' @ Wake t # b" "x = Wake now" using eq by simp_all
        then show ?thesis using p(5) Cons by simp
      qed
    qed
    then have "Wake now # rest = (Wake now # pre) @ Wake n # post
        \<and> KeyboardInterrupt \<notin> set (Wake now # pre)
        \<and> idle = n - stamp_after (Wake now # pre) s0 \<and> idle > T
        \<and> (\<forall>a t b. Wake now # pre = a @ Wake t # b \<longrightarrow> \<not> (t - stamp_after a s0 > T))"
      using p by simp
    then show ?thesis by blast
  qed
next
  case (3 T now ev rest s0)
  let ?s = "mark_event ev now s0"
  have "watch_loop T rest ?s = Some (Idle_shutdown idle)" using "3.prems" by simp
  from "3.IH"[OF this] obtain pre n post where
      p: "rest = pre @ Wake n # post" "KeyboardInterrupt \<notin> set pre"
        "idle = n - stamp_after pre ?s" "idle > T"
        "\<forall>a t b. pre = a @ Wake t # b \<longrightarrow> \<not> (t - stamp_after a ?s > T)"
    by auto
  have "\<forall>a t b. Created now ev # pre = a @ Wake t # b \<longrightarrow> \<not> (t - stamp_after a s0 > T)"
  proof (intro allI impI)
    fix a t b assume eq: "Created now ev # pre = a @ Wake t # b"
    show "\<not> (t - stamp_after a s0 > T)"
    proof (cases a)
      case Nil then show ?thesis using eq by simp
    next
      case (Cons x a')
      then have "pre = a' @ Wake t # b" "x = Created now ev" using eq by simp_all
      then show ?thesis using p(5) Cons by simp
    qed
  qed
  then have "Created now ev # rest = (Created now ev # pre) @ Wake n # post
        \<and> KeyboardInterrupt \<notin> set (Created now ev # pre)
        \<and> idle = n - stamp_after (Created now ev # pre) s0 \<and> idle > T
        \<and> (\<forall>a t b. Created now ev # pre = a @ Wake t # b \<longrightarrow> \<not> (t - stamp_after a s0 > T))"
    using p by simp
  then show ?case by blast
next
  case (4 T rest s0)
  then show ?case by simp
qed

lemma watch_loop_idle_I:
  "KeyboardInterrupt \<notin> set pre \<Longrightarrow> now - stamp_after pre s0 > T
    \<Longrightarrow> \<forall>a t b. pre = a @ Wake t # b \<longrightarrow> \<not> (t - stamp_after a s0 > T)
    \<Longrightarrow> watch_loop T (pre @ Wake now # post) s0 = Some (Idle_shutdown (now - stamp_after pre s0))"
proof (induction pre arbitrary: s0)
  case Nil
  then show ?case by simp
next
  case (Cons x pre)
  show ?case
  proof (cases x)
    case (Wake t)
    have nt: "\<not> (t - s0 > T)" using Cons.prems(3)[rule_format, of "[]" t pre] Wake by simp
    have later: "\<forall>a u b. pre = a @ Wake u # b \<longrightarrow> \<not> (u - stamp_after a s0 > T)"
    proof (intro allI impI)
      fix a u b assume "pre = a @ Wake u # b"
      then have "x # pre = (Wake t # a) @ Wake u # b" using Wake by simp
      from Cons.prems(3)[rule_format, OF this] show "\<not> (u - stamp_after a s0 > T)" by simp
    qed
    show ?thesis using Cons.IH[OF _ _ later] Cons.prems(1,2) Wake nt by simp
  next
    case (Created t ev)
    let ?s = "mark_event ev t s0"
    have later: "\<forall>a u b. pre = a @ Wake u # b \<longrightarrow> \<not> (u - stamp_after a ?s > T)"
    proof (intro allI impI)
      fix a u b assume "pre = a @ Wake u # b"
      then have "x # pre = (Created t ev # a) @ Wake u # b" using Created by simp
      from Cons.prems(3)[rule_format, OF this] show "\<not> (u - stamp_after a ?s > T)" by simp
    qed
    show ?thesis using Cons.IH[OF _ _ later] Cons.prems(1,2) Created by simp
  next
    case KeyboardInterrupt
    then show ?thesis using Cons.prems(1) by simp
  qed
qed

text \<open>
  Claim C8. The watch loop leaves by the idle exit at a wake-up exactly when, at that
  wake-up, the time since the shared time stamp is strictly greater than the idle timeout,
  and at no earlier wake-up it was (a keyboard interrupt is the loop's only other exit).
  An accepted candidate sets the time stamp to the time of its dispatch, before the job
  runs, and so restarts the idle clock; any other event leaves it.
\<close>

theorem idle_shutdown_iff:
  "(watch_loop idle_timeout run s0 = Some (Idle_shutdown idle)) =
     (\<exists>pre now post. run = pre @ Wake now # post \<and> KeyboardInterrupt \<notin> set pre
        \<and> idle = now - stamp_after pre s0 \<and> idle > idle_timeout
        \<and> (\<forall>a t b. pre = a @ Wake t # b \<longrightarrow> \<not> (t - stamp_after a s0 > idle_timeout)))
   \<and> last_event_time (snd (on_created n self e ev w))
       = (if candidate ev then clock w else last_event_time w)
   \<and> stamp_after (pre' @ [Created now' ev]) s0
       = (if candidate ev then now' else stamp_after pre' s0)"
proof -
  have a: "(watch_loop idle_timeout run s0 = Some (Idle_shutdown idle)) =
     (\<exists>pre now post. run = pre @ Wake now # post \<and> KeyboardInterrupt \<notin> set pre
        \<and> idle = now - stamp_after pre s0 \<and> idle > idle_timeout
        \<and> (\<forall>a t b. pre = a @ Wake t # b \<longrightarrow> \<not> (t - stamp_after a s0 > idle_timeout)))"
  proof
    assume "watch_loop idle_timeout run s0 = Some (Idle_shutdown idle)"
    then show "\<exists>pre now post. run = pre @ Wake now # post \<and> KeyboardInterrupt \<notin> set pre
        \<and> idle = now - stamp_after pre s0 \<and> idle > idle_timeout
        \<and> (\<forall>a t b. pre = a @ Wake t # b \<longrightarrow> \<not> (t - stamp_after a s0 > idle_timeout))"
      by (rule watch_loop_idle_D)
  next
    assume "\<exists>pre now post. run = pre @ Wake now # post \<and> KeyboardInterrupt \<notin> set pre
        \<and> idle = now - stamp_after pre s0 \<and> idle > idle_timeout
        \<and> (\<forall>a t b. pre = a @ Wake t # b \<longrightarrow> \<not> (t - stamp_after a s0 > idle_timeout))"
    then obtain pre now post where p: "run = pre @ Wake now # post" "KeyboardInterrupt \<notin> set pre"
        "idle = now - stamp_after pre s0" "idle > idle_timeout"
        "\<forall>a t b. pre = a @ Wake t # b \<longrightarrow> \<not> (t - stamp_after a s0 > idle_timeout)"
      by blast
    have "now - stamp_after pre s0 > idle_timeout" using p(3,4) by simp
    from watch_loop_idle_I[OF p(2) this p(5), of post]
    show "watch_loop idle_timeout run s0 = Some (Idle_shutdown idle)" using p(1,3) by simp
  qed
  have b: "stamp_after (xs @ [Created now' ev]) s = (if candidate ev then now' else stamp_after xs s)" for xs s
    by (induction xs s rule: stamp_after.induct) (simp_all add: mark_event_def)
  show ?thesis using a b on_created_stamp[of n self e ev w] by (simp add: mark_event_def)
qed

theorem idle_shutdown_iff_witness:
  "watch_loop 5 run_sample 0 = Some (Idle_shutdown (11 / 2))
   \<and> (\<exists>pre now post. run_sample = pre @ Wake now # post \<and> KeyboardInterrupt \<notin> set pre
        \<and> 11 / 2 = now - stamp_after pre 0 \<and> 11 / 2 > (5::real)
        \<and> (\<forall>a t b. pre = a @ Wake t # b \<longrightarrow> \<not> (t - stamp_after a 0 > 5)))
   \<and> watch_loop 5 [Wake 5, Wake 6] 0 = Some (Idle_shutdown 6)
   \<and> candidate created_a
   \<and> last_event_time (snd (on_created 1 gzip4 calm created_a disk_probed)) = 1
   \<and> stamp_after [Wake 5, Created (11 / 2) created_a] 0 = 11 / 2"
proof -
  have l: "watch_loop 5 run_sample 0 = Some (Idle_shutdown (11 / 2))"
    by (simp add: run_sample_def mark_event_def candidate_created_a)
  note t = idle_shutdown_iff [of 5 run_sample 0 "11 / 2" 1 gzip4 calm created_a disk_probed "[Wake 5]" "11 / 2"]
  have r: "\<exists>pre now post. run_sample = pre @ Wake now # post \<and> KeyboardInterrupt \<notin> set pre
        \<and> 11 / 2 = now - stamp_after pre 0 \<and> 11 / 2 > (5::real)
        \<and> (\<forall>a t b. pre = a @ Wake t # b \<longrightarrow> \<not> (t - stamp_after a 0 > 5))"
    using t l by blast
  have s: "last_event_time (snd (on_created 1 gzip4 calm created_a disk_probed)) = 1"
    using t candidate_created_a by (simp add: disk_probed_def)
  have m: "stamp_after [Wake 5, Created (11 / 2) created_a] 0 = 11 / 2"
    using t candidate_created_a by simp
  show ?thesis using l r s m candidate_created_a by simp
qed

end
